theory Spec2Isabelle
  imports Main "HOL-Library.Multiset"
begin

section \<open>Error carrier (src/src/error.c)\<close>

text \<open>
  The error kinds of the library. The enum itself is declared in a header that is not part
  of the sources at hand; the constructors are the ones \<^verbatim>\<open>error.c\<close> switches over, plus
  \<^verbatim>\<open>SCC_ER_TOO_LARGE_DIGRAPH\<close>, which the digraph store reports.
\<close>

datatype scc_ErrorCode =
    SCC_ER_OK
  | SCC_ER_UNKNOWN_ERROR
  | SCC_ER_INVALID_INPUT
  | SCC_ER_NO_MEMORY
  | SCC_ER_NO_SOLUTION
  | SCC_ER_TOO_LARGE_PROBLEM
  | SCC_ER_TOO_LARGE_DIGRAPH
  | SCC_ER_DIST_SEARCH_ERROR
  | SCC_ER_NOT_IMPLEMENTED

text \<open>The four static variables of \<^verbatim>\<open>error.c\<close>; a null message is \<open>None\<close>.\<close>

record error_state =
  iscc_error_code :: scc_ErrorCode
  iscc_error_msg :: "string option"
  iscc_error_file :: string
  iscc_error_line :: int

definition iscc_reset_error :: error_state where
  "iscc_reset_error =
     \<lparr>iscc_error_code = SCC_ER_OK, iscc_error_msg = None,
      iscc_error_file = ''unknown file'', iscc_error_line = -1\<rparr>"

definition iscc_make_error_func ::
  "scc_ErrorCode \<Rightarrow> string option \<Rightarrow> string \<Rightarrow> int \<Rightarrow> error_state" where
  "iscc_make_error_func ec msg file line =
     \<lparr>iscc_error_code = ec, iscc_error_msg = msg,
      iscc_error_file = file, iscc_error_line = line\<rparr>"

text \<open>Decimal digits, as \<^verbatim>\<open>%d\<close> prints an \<^verbatim>\<open>int\<close>.\<close>

fun show_nat :: "nat \<Rightarrow> string" where
  "show_nat n =
     (if n < 10 then [char_of (48 + n)]
      else show_nat (n div 10) @ [char_of (48 + n mod 10)])"

declare show_nat.simps [simp del]

definition show_int :: "int \<Rightarrow> string" where
  "show_int i = (if i < 0 then CHR ''-'' # show_nat (nat (- i)) else show_nat (nat i))"

definition INT_MAX :: nat where
  "INT_MAX = 2147483647"

text \<open>
  The C library's \<^verbatim>\<open>snprintf(buf, n, ...)\<close> for \<open>n > 0\<close>, given the fully formatted text
  \<open>s\<close>: it stores at most \<open>n - 1\<close> characters of \<open>s\<close> followed by a terminating null, and
  returns the number of characters \<open>s\<close> has (the length that a large enough buffer would
  have received), or a negative value when that length is not representable as an
  \<^verbatim>\<open>int\<close>. The stored text is modelled without its terminator.
\<close>

definition c_snprintf :: "nat \<Rightarrow> string \<Rightarrow> string \<times> int" where
  "c_snprintf n s = (take (n - 1) s, if INT_MAX < length s then -1 else int (length s))"

definition default_error_message :: "scc_ErrorCode \<Rightarrow> string" where
  "default_error_message ec =
     (case ec of
        SCC_ER_UNKNOWN_ERROR \<Rightarrow> ''Unkonwn error.''
      | SCC_ER_INVALID_INPUT \<Rightarrow> ''Function parameters are invalid.''
      | SCC_ER_NO_MEMORY \<Rightarrow> ''Cannot allocate required memory.''
      | SCC_ER_NO_SOLUTION \<Rightarrow> ''Clustering problem has no solution.''
      | SCC_ER_TOO_LARGE_PROBLEM \<Rightarrow> ''Clustering problem is too large.''
      | SCC_ER_DIST_SEARCH_ERROR \<Rightarrow> ''Failed to calculate distances.''
      | SCC_ER_NOT_IMPLEMENTED \<Rightarrow> ''Functionality not yet implemented.''
      | _ \<Rightarrow> ''Unknown error code.'')"

text \<open>The text that \<^verbatim>\<open>scc_get_latest_error\<close> hands to \<^verbatim>\<open>snprintf\<close>.\<close>

definition latest_error_text :: "error_state \<Rightarrow> string" where
  "latest_error_text st =
     (if iscc_error_code st = SCC_ER_OK then ''(scclust) No error.''
      else ''(scclust:'' @ iscc_error_file st @ '':'' @ show_int (iscc_error_line st) @ '') ''
           @ (case iscc_error_msg st of
                Some m \<Rightarrow> m
              | None \<Rightarrow> default_error_message (iscc_error_code st)))"

text \<open>
  \<^verbatim>\<open>scc_get_latest_error(len, buffer)\<close>. The buffer is \<open>None\<close> for a null pointer and
  otherwise holds its current text; the result is the returned flag and the buffer
  afterwards.
\<close>

definition scc_get_latest_error ::
  "error_state \<Rightarrow> nat \<Rightarrow> string option \<Rightarrow> bool \<times> string option" where
  "scc_get_latest_error st len_error_message_buffer error_message_buffer =
     (if len_error_message_buffer = 0 \<or> error_message_buffer = None
      then (False, error_message_buffer)
      else
        (let (written, ret) = c_snprintf len_error_message_buffer (latest_error_text st)
         in if ret < 0 then (False, Some written) else (True, Some written)))"

text \<open>
  A buffer of \<open>n\<close> bytes is large enough for a text when the text and its terminating
  null fit.
\<close>

definition buffer_large_enough :: "nat \<Rightarrow> string \<Rightarrow> bool" where
  "buffer_large_enough n s = (length s < n)"


section \<open>Outcomes of fallible operations\<close>

text \<open>
  Every fallible operation of the library returns an error code and records an optional
  message (\<^verbatim>\<open>iscc_make_error\<close>, \<^verbatim>\<open>iscc_make_error_msg\<close>). A third outcome stands
  for executions that leave the defined behaviour of C: an access outside an array, or an
  unsigned counter decremented below zero. The source has no check there; the model stops
  with \<open>Undefined\<close> instead of inventing a value.
\<close>

datatype failure = Failed scc_ErrorCode "string option" | Undefined

definition iscc_make_error :: "scc_ErrorCode \<Rightarrow> failure" where
  "iscc_make_error ec = Failed ec None"

definition iscc_make_error_msg :: "scc_ErrorCode \<Rightarrow> string \<Rightarrow> failure" where
  "iscc_make_error_msg ec msg = Failed ec (Some msg)"

text \<open>
  Memory: \<open>alloc n\<close> tells whether the allocator grants a request for an array of \<open>n\<close>
  elements. It is a parameter of every operation that allocates.
\<close>

type_synonym allocator = "nat \<Rightarrow> bool"


section \<open>Digraph store\<close>

text \<open>The integer limits of \<^verbatim>\<open>scclust.h\<close>: all three types are \<^verbatim>\<open>uint32_t\<close>.\<close>

definition SCC_DPID_MAX :: nat where
  "SCC_DPID_MAX = 4294967295"

definition SCC_DPID_NA :: nat where
  "SCC_DPID_NA = 4294967295"

definition SCC_ARCI_MAX :: nat where
  "SCC_ARCI_MAX = 4294967295"

text \<open>The cast \<^verbatim>\<open>(scc_Arci) counter\<close> of a \<^verbatim>\<open>size_t\<close>.\<close>

definition to_Arci :: "nat \<Rightarrow> nat" where
  "to_Arci c = c mod 4294967296"

text \<open>
  The CSR digraph: \<open>tail_ptr\<close> has \<open>vertices + 1\<close> entries, \<open>head\<close> is the arc buffer of
  \<open>max_arcs\<close> entries.
\<close>

record iscc_Digraph =
  vertices :: nat
  max_arcs :: nat
  head :: "nat list"
  tail_ptr :: "nat list"

text \<open>
  The out-arcs of \<open>v\<close>: the entries \<^verbatim>\<open>head[tail_ptr[v]]\<close> up to, not including,
  \<^verbatim>\<open>head[tail_ptr[v + 1]]\<close>, which every loop of the form
  \<^verbatim>\<open>for (arc = head + tail_ptr[v]; arc != head + tail_ptr[v + 1]; ++arc)\<close> visits in order.
\<close>

definition out_row :: "iscc_Digraph \<Rightarrow> nat \<Rightarrow> nat list" where
  "out_row dg v =
     take (tail_ptr dg ! Suc v - tail_ptr dg ! v) (drop (tail_ptr dg ! v) (head dg))"

text \<open>All arcs in use: \<^verbatim>\<open>head[0]\<close> up to \<^verbatim>\<open>head[tail_ptr[vertices]]\<close>.\<close>

definition all_arcs :: "iscc_Digraph \<Rightarrow> nat list" where
  "all_arcs dg = take (tail_ptr dg ! vertices dg) (head dg)"

text \<open>
  Modelled from the spec: the predicates and the allocation functions of the digraph
  store (\<^verbatim>\<open>digraph_core.c\<close>) are not among the sources. A digraph is initialised when
  its \<open>tail_ptr\<close> has \<open>vertices + 1\<close> entries and its arc buffer has \<open>max_arcs\<close> entries; it
  is valid when moreover \<open>tail_ptr\<close> starts at \<open>0\<close> (the arcs in use are the concatenated
  rows) and is monotone non-decreasing, \<open>tail_ptr[vertices]\<close> is at most \<open>max_arcs\<close>, and
  every arc in use points to a vertex.
\<close>

definition iscc_digraph_is_initialized :: "iscc_Digraph \<Rightarrow> bool" where
  "iscc_digraph_is_initialized dg =
     (length (tail_ptr dg) = vertices dg + 1 \<and> length (head dg) = max_arcs dg
      \<and> vertices dg < SCC_DPID_MAX \<and> max_arcs dg \<le> SCC_ARCI_MAX)"

definition iscc_digraph_is_valid :: "iscc_Digraph \<Rightarrow> bool" where
  "iscc_digraph_is_valid dg =
     (iscc_digraph_is_initialized dg \<and> tail_ptr dg ! 0 = 0 \<and> sorted (tail_ptr dg)
      \<and> tail_ptr dg ! vertices dg \<le> max_arcs dg
      \<and> list_all (\<lambda>a. a < vertices dg) (all_arcs dg))"

definition iscc_digraph_is_empty :: "iscc_Digraph \<Rightarrow> bool" where
  "iscc_digraph_is_empty dg = (tail_ptr dg ! vertices dg = 0)"

text \<open>
  Modelled from the spec: \<open>init(n, m_cap)\<close> allocates \<open>tail_ptr\<close> of length \<open>n + 1\<close> and,
  if \<open>m_cap > 0\<close>, \<open>head\<close> of length \<open>m_cap\<close>; it fails with \<^verbatim>\<open>TOO_LARGE_DIGRAPH\<close> when
  \<open>m_cap\<close> exceeds the arc-index limit and with \<^verbatim>\<open>NO_MEMORY\<close> when an allocation is
  refused. The buffers come back uninitialised: the zeros below are placeholders that every
  caller overwrites before reading. \<open>empty(n, m_cap)\<close> is \<open>init\<close> with a zero-filled
  \<open>tail_ptr\<close>.
\<close>

definition iscc_init_digraph :: "allocator \<Rightarrow> nat \<Rightarrow> nat \<Rightarrow> failure + iscc_Digraph" where
  "iscc_init_digraph alloc n m_cap =
     (if SCC_ARCI_MAX < m_cap then Inl (iscc_make_error SCC_ER_TOO_LARGE_DIGRAPH)
      else if \<not> alloc (n + 1) \<or> (0 < m_cap \<and> \<not> alloc m_cap)
      then Inl (iscc_make_error SCC_ER_NO_MEMORY)
      else Inr \<lparr>vertices = n, max_arcs = m_cap,
                head = replicate m_cap 0, tail_ptr = replicate (n + 1) 0\<rparr>)"

definition iscc_empty_digraph :: "allocator \<Rightarrow> nat \<Rightarrow> nat \<Rightarrow> failure + iscc_Digraph" where
  "iscc_empty_digraph alloc n m_cap =
     (case iscc_init_digraph alloc n m_cap of
        Inl e \<Rightarrow> Inl e
      | Inr dg \<Rightarrow> Inr (dg\<lparr>tail_ptr := replicate (n + 1) 0\<rparr>))"

text \<open>
  Modelled from the spec: \<open>change_arc_storage(g, new_cap)\<close> resizes \<open>head\<close> to \<open>new_cap\<close>
  entries, keeping the entries that remain, and leaves \<open>tail_ptr\<close> unchanged; with
  \<open>new_cap = 0\<close> the buffer is freed. It fails with \<^verbatim>\<open>TOO_LARGE_DIGRAPH\<close> when
  \<open>new_cap\<close> exceeds the arc-index limit, and with \<^verbatim>\<open>NO_MEMORY\<close> when the reallocation
  is refused.
\<close>

definition iscc_change_arc_storage ::
  "allocator \<Rightarrow> iscc_Digraph \<Rightarrow> nat \<Rightarrow> failure + iscc_Digraph" where
  "iscc_change_arc_storage alloc dg new_cap =
     (if SCC_ARCI_MAX < new_cap then Inl (iscc_make_error SCC_ER_TOO_LARGE_DIGRAPH)
      else if new_cap = 0 then Inr (dg\<lparr>max_arcs := 0, head := []\<rparr>)
      else if \<not> alloc new_cap then Inl (iscc_make_error SCC_ER_NO_MEMORY)
      else Inr (dg\<lparr>max_arcs := new_cap,
                   head := take new_cap (head dg) @ replicate (new_cap - length (head dg)) 0\<rparr>))"


section \<open>Digraph algebra (digraph\_operations.c)\<close>

text \<open>
  The row-marker step shared by union, union-and-delete and the adjacency product:
  \<^verbatim>\<open>if (row_markers[x] != v) { row_markers[x] = v; out_head[counter] = x; ++counter; }\<close>.
  The state is the output arcs written so far (\<open>counter\<close> is their number) and the marker
  array. The counting pass (\<^verbatim>\<open>write == false\<close>) runs the same steps without storing
  the arcs.
\<close>

definition emit_unmarked :: "nat \<Rightarrow> nat \<Rightarrow> nat list \<times> nat list \<Rightarrow> nat list \<times> nat list" where
  "emit_unmarked v x =
     (\<lambda>(out_head, row_markers).
        if row_markers ! x \<noteq> v then (out_head @ [x], row_markers[x := v])
        else (out_head, row_markers))"

text \<open>
  The outer loop of every operator: \<^verbatim>\<open>out_tail_ptr[0] = 0\<close>, then for each \<open>v\<close> the row
  is produced and \<^verbatim>\<open>out_tail_ptr[v + 1] = (scc_Arci) counter\<close>. The markers start as
  \<^verbatim>\<open>SCC_DPID_NA\<close>. The result is \<open>(out_tail_ptr, out_head, row_markers)\<close>.
\<close>

definition write_row_step ::
  "(nat \<Rightarrow> nat list \<times> nat list \<Rightarrow> nat list \<times> nat list) \<Rightarrow> nat
   \<Rightarrow> nat list \<times> nat list \<times> nat list \<Rightarrow> nat list \<times> nat list \<times> nat list" where
  "write_row_step do_row v =
     (\<lambda>(out_tail_ptr, out_head, row_markers).
        let (out_head', row_markers') = do_row v (out_head, row_markers)
        in (out_tail_ptr @ [to_Arci (length out_head')], out_head', row_markers'))"

definition write_rows ::
  "nat \<Rightarrow> (nat \<Rightarrow> nat list \<times> nat list \<Rightarrow> nat list \<times> nat list)
   \<Rightarrow> nat list \<times> nat list \<times> nat list" where
  "write_rows num_vertices do_row =
     fold (write_row_step do_row) [0..<num_vertices]
       ([0], [], replicate num_vertices SCC_DPID_NA)"

text \<open>
  What a \<^verbatim>\<open>iscc_do_...\<close> function hands back: the arc count it returns, and, when
  \<^verbatim>\<open>write\<close> is set, the contents of \<^verbatim>\<open>out_tail_ptr\<close> and of the written part of
  \<^verbatim>\<open>out_head\<close>.
\<close>

definition do_result ::
  "bool \<Rightarrow> nat list \<times> nat list \<times> nat list \<Rightarrow> nat \<times> (nat list \<times> nat list) option" where
  "do_result write r =
     (case r of (out_tail_ptr, out_head, row_markers) \<Rightarrow>
        (length out_head, if write then Some (out_tail_ptr, out_head) else None))"

definition union_row :: "iscc_Digraph list \<Rightarrow> nat \<Rightarrow> nat list \<times> nat list \<Rightarrow> nat list \<times> nat list" where
  "union_row dgs v =
     (\<lambda>(out_head, row_markers).
        fold (\<lambda>dg. fold (emit_unmarked v) (out_row dg v)) dgs (out_head, row_markers[v := v]))"


definition iscc_do_union_and_delete ::
  "nat \<Rightarrow> iscc_Digraph list \<Rightarrow> bool list \<Rightarrow> bool \<Rightarrow> nat \<times> (nat list \<times> nat list) option" where
  "iscc_do_union_and_delete num_vertices dgs tails_to_keep write =
     do_result write
       (write_rows num_vertices (\<lambda>v s. if tails_to_keep ! v then union_row dgs v s else s))"

text \<open>
  The minuend loop of the difference:
  \<^verbatim>\<open>for (; (row_counter < max_out_degree) && (arc_m != arc_m_stop); ++arc_m)\<close>, emitting
  every arc whose marker is not \<open>v\<close>, without marking it.
\<close>

fun difference_emit :: "nat \<Rightarrow> nat list \<Rightarrow> nat \<Rightarrow> nat \<Rightarrow> nat list \<Rightarrow> nat list" where
  "difference_emit v row_markers max_out_degree row_counter [] = []"
| "difference_emit v row_markers max_out_degree row_counter (arc_m # arcs) =
     (if row_counter < max_out_degree
      then (if row_markers ! arc_m \<noteq> v
            then arc_m # difference_emit v row_markers max_out_degree (row_counter + 1) arcs
            else difference_emit v row_markers max_out_degree row_counter arcs)
      else [])"

definition difference_row ::
  "iscc_Digraph \<Rightarrow> iscc_Digraph \<Rightarrow> nat \<Rightarrow> nat \<Rightarrow> nat list \<times> nat list \<Rightarrow> nat list \<times> nat list" where
  "difference_row minuend subtrahend max_out_degree v =
     (\<lambda>(out_head, row_markers).
        let row_markers' = fold (\<lambda>x m. m[x := v]) (out_row subtrahend v) (row_markers[v := v])
        in (out_head @ difference_emit v row_markers' max_out_degree 0 (out_row minuend v),
            row_markers'))"

text \<open>
  \<^verbatim>\<open>iscc_do_difference\<close> receives the \<open>tail_ptr\<close> and \<open>head\<close> arrays of the two digraphs;
  here they arrive inside their digraphs.
\<close>

definition iscc_do_difference ::
  "nat \<Rightarrow> iscc_Digraph \<Rightarrow> iscc_Digraph \<Rightarrow> nat \<Rightarrow> bool \<Rightarrow> nat \<times> (nat list \<times> nat list) option" where
  "iscc_do_difference num_vertices minuend subtrahend max_out_degree write =
     do_result write (write_rows num_vertices (difference_row minuend subtrahend max_out_degree))"

definition product_row ::
  "iscc_Digraph \<Rightarrow> iscc_Digraph \<Rightarrow> bool \<Rightarrow> bool \<Rightarrow> nat
   \<Rightarrow> nat list \<times> nat list \<Rightarrow> nat list \<times> nat list" where
  "product_row dg_a dg_b force_loops ignore_loops v =
     (\<lambda>(out_head, row_markers).
        let s0 = (out_head, row_markers[v := v]);
            s1 = (if force_loops then fold (emit_unmarked v) (out_row dg_b v) s0 else s0)
        in fold (\<lambda>arc_a s.
                   if arc_a = v \<and> (force_loops \<or> ignore_loops) then s
                   else fold (emit_unmarked v) (out_row dg_b arc_a) s)
                (out_row dg_a v) s1)"

definition iscc_do_adjacency_product ::
  "nat \<Rightarrow> iscc_Digraph \<Rightarrow> iscc_Digraph \<Rightarrow> bool \<Rightarrow> bool \<Rightarrow> bool
   \<Rightarrow> nat \<times> (nat list \<times> nat list) option" where
  "iscc_do_adjacency_product num_vertices dg_a dg_b force_loops ignore_loops write =
     do_result write (write_rows num_vertices (product_row dg_a dg_b force_loops ignore_loops))"

text \<open>
  The allocation protocol that the four operators repeat word for word: allocate the
  markers; try \<^verbatim>\<open>iscc_init_digraph\<close> with the greedy arc count and, if that fails, with
  the exact count of a counting pass; run the writing pass; shrink the arc buffer to the
  number of arcs written. A writing pass that stores more arcs than the buffer holds has
  left the buffer, which is \<open>Undefined\<close>.
\<close>

definition store_result ::
  "allocator \<Rightarrow> nat \<Rightarrow> nat \<Rightarrow> (bool \<Rightarrow> nat \<times> (nat list \<times> nat list) option)
   \<Rightarrow> failure + iscc_Digraph" where
  "store_result alloc num_vertices greedy do_op =
     (if \<not> alloc num_vertices then Inl (iscc_make_error SCC_ER_NO_MEMORY)
      else
        (case (case iscc_init_digraph alloc num_vertices greedy of
                 Inr dg \<Rightarrow> Inr dg
               | Inl _ \<Rightarrow> iscc_init_digraph alloc num_vertices (fst (do_op False))) of
           Inl ec \<Rightarrow> Inl ec
         | Inr out_dg \<Rightarrow>
             (case do_op True of
                (out_arcs_write, Some (out_tail_ptr, out_head)) \<Rightarrow>
                  if max_arcs out_dg < out_arcs_write then Inl Undefined
                  else iscc_change_arc_storage alloc
                         (out_dg\<lparr>tail_ptr := out_tail_ptr,
                                 head := out_head @ drop (length out_head) (head out_dg)\<rparr>)
                         out_arcs_write
              | (out_arcs_write, None) \<Rightarrow> Inl Undefined)))"


definition iscc_digraph_union_and_delete ::
  "allocator \<Rightarrow> iscc_Digraph list \<Rightarrow> bool list \<Rightarrow> failure + iscc_Digraph" where
  "iscc_digraph_union_and_delete alloc in_dgs tails_to_keep =
     (let num_vertices = vertices (in_dgs ! 0);
          out_arcs_write = sum_list (map (\<lambda>dg. tail_ptr dg ! num_vertices) in_dgs)
      in store_result alloc num_vertices out_arcs_write
           (iscc_do_union_and_delete num_vertices in_dgs tails_to_keep))"

text \<open>
  \<^verbatim>\<open>iscc_digraph_difference\<close> reads its vertex count from \<^verbatim>\<open>in_dgs[0].vertices\<close>, a
  name the function does not declare; the two digraphs it does receive are asserted to
  have the same vertex count, which is the count used here.
\<close>

definition iscc_digraph_difference ::
  "allocator \<Rightarrow> iscc_Digraph \<Rightarrow> iscc_Digraph \<Rightarrow> nat \<Rightarrow> failure + iscc_Digraph" where
  "iscc_digraph_difference alloc minuend_dg subtrahend_dg max_out_degree =
     (let num_vertices = vertices minuend_dg;
          out_arcs_write = tail_ptr minuend_dg ! vertices minuend_dg
      in store_result alloc num_vertices out_arcs_write
           (iscc_do_difference num_vertices minuend_dg subtrahend_dg max_out_degree))"

text \<open>The greedy arc count of the adjacency product.\<close>

definition product_greedy_count :: "iscc_Digraph \<Rightarrow> iscc_Digraph \<Rightarrow> bool \<Rightarrow> bool \<Rightarrow> nat" where
  "product_greedy_count in_dg_a in_dg_b force_loops ignore_loops =
     fold (\<lambda>v out_arcs_write.
             fold (\<lambda>arc_a c.
                     if arc_a = v \<and> (force_loops \<or> ignore_loops) then c
                     else c + (tail_ptr in_dg_b ! Suc arc_a - tail_ptr in_dg_b ! arc_a))
                  (out_row in_dg_a v)
                  (if force_loops
                   then out_arcs_write + (tail_ptr in_dg_b ! Suc v - tail_ptr in_dg_b ! v)
                   else out_arcs_write))
          [0..<vertices in_dg_a] 0"

definition iscc_adjacency_product ::
  "allocator \<Rightarrow> iscc_Digraph \<Rightarrow> iscc_Digraph \<Rightarrow> bool \<Rightarrow> bool \<Rightarrow> failure + iscc_Digraph" where
  "iscc_adjacency_product alloc in_dg_a in_dg_b force_loops ignore_loops =
     (let num_vertices = vertices in_dg_a
      in store_result alloc num_vertices
           (product_greedy_count in_dg_a in_dg_b force_loops ignore_loops)
           (iscc_do_adjacency_product num_vertices in_dg_a in_dg_b force_loops ignore_loops))"

text \<open>
  The transpose, a counting sort in three loops over the zero-filled \<open>tail_ptr\<close> of the
  new digraph: count the arcs into each vertex, accumulate, then scatter each arc
  \<open>v \<rightarrow> a\<close> to the slot \<^verbatim>\<open>--tail_ptr[a]\<close>. The counts never exceed the number of arcs of
  the input, so no arithmetic wraps.
\<close>

definition transpose_count :: "nat list \<Rightarrow> nat list \<Rightarrow> nat list" where
  "transpose_count arcs out_tail_ptr = fold (\<lambda>a t. t[a := t ! a + 1]) arcs out_tail_ptr"

definition transpose_accumulate :: "nat \<Rightarrow> nat list \<Rightarrow> nat list" where
  "transpose_accumulate n out_tail_ptr =
     fold (\<lambda>v t. t[Suc v := t ! Suc v + t ! v]) [0..<n] out_tail_ptr"

definition scatter_arc :: "nat \<Rightarrow> nat \<Rightarrow> nat list \<times> nat list \<Rightarrow> nat list \<times> nat list" where
  "scatter_arc v a =
     (\<lambda>(out_tail_ptr, out_head).
        let t = out_tail_ptr[a := out_tail_ptr ! a - 1] in (t, out_head[t ! a := v]))"

definition transpose_scatter ::
  "iscc_Digraph \<Rightarrow> nat list \<times> nat list \<Rightarrow> nat list \<times> nat list" where
  "transpose_scatter in_dg =
     fold (\<lambda>v. fold (scatter_arc v) (out_row in_dg v)) [0..<vertices in_dg]"

definition iscc_digraph_transpose :: "allocator \<Rightarrow> iscc_Digraph \<Rightarrow> failure + iscc_Digraph" where
  "iscc_digraph_transpose alloc in_dg =
     (case iscc_empty_digraph alloc (vertices in_dg) (tail_ptr in_dg ! vertices in_dg) of
        Inl ec \<Rightarrow> Inl ec
      | Inr out_dg \<Rightarrow>
          (let t1 = transpose_count (all_arcs in_dg) (tail_ptr out_dg);
               t2 = transpose_accumulate (vertices in_dg) t1;
               (t3, h3) = transpose_scatter in_dg (t2, head out_dg)
           in Inr (out_dg\<lparr>tail_ptr := t3, head := h3\<rparr>)))"


section \<open>Seed finder (nng\_findseeds.c)\<close>

datatype scc_SeedMethod =
    SCC_SM_LEXICAL
  | SCC_SM_INWARDS_ORDER
  | SCC_SM_INWARDS_UPDATING
  | SCC_SM_INWARDS_ALT_UPDATING
  | SCC_SM_EXCLUSION_ORDER
  | SCC_SM_EXCLUSION_UPDATING

text \<open>
  The seed list. The field \<^verbatim>\<open>count\<close> is called \<open>count_seeds\<close> here; \<open>seeds\<close> holds the
  entries of the buffer that have been written.
\<close>

record iscc_SeedResult =
  capacity :: nat
  count_seeds :: nat
  seeds :: "nat list"

text \<open>
  The sort index. The C arrays \<^verbatim>\<open>vertex_index\<close> and \<^verbatim>\<open>bucket_index\<close> hold pointers
  into \<^verbatim>\<open>sorted_vertices\<close>; here they hold the offsets of those pointers from the start
  of \<^verbatim>\<open>sorted_vertices\<close>, and pointer comparisons are comparisons of offsets. An array
  that is \<^verbatim>\<open>NULL\<close> is the empty list.
\<close>

record iscc_fs_SortResult =
  inwards_count :: "nat list"
  sorted_vertices :: "nat list"
  vertex_index :: "nat list"
  bucket_index :: "nat list"

definition iscc_fs_check_neighbors_marks :: "nat \<Rightarrow> iscc_Digraph \<Rightarrow> bool list \<Rightarrow> bool" where
  "iscc_fs_check_neighbors_marks v nng marks =
     (if marks ! v then False
      else if tail_ptr nng ! v = tail_ptr nng ! Suc v then False
      else list_all (\<lambda>v_arc. \<not> marks ! v_arc) (out_row nng v))"

definition iscc_fs_mark_seed_neighbors :: "nat \<Rightarrow> iscc_Digraph \<Rightarrow> bool list \<Rightarrow> bool list" where
  "iscc_fs_mark_seed_neighbors s nng marks =
     (fold (\<lambda>s_arc m. m[s_arc := True]) (out_row nng s) marks)[s := True]"

text \<open>
  \<^verbatim>\<open>iscc_fs_add_seed\<close>. The label limit \<^verbatim>\<open>SCC_CLABEL_MAX\<close> belongs to a header that is
  not among the sources, and the label type is the user's to choose; the limit is the
  parameter \<open>clabel_max\<close>.
\<close>

definition iscc_fs_add_seed ::
  "nat \<Rightarrow> allocator \<Rightarrow> nat \<Rightarrow> iscc_SeedResult \<Rightarrow> failure + iscc_SeedResult" where
  "iscc_fs_add_seed clabel_max alloc s seed_result =
     (if count_seeds seed_result = clabel_max
      then Inl (iscc_make_error_msg SCC_ER_TOO_LARGE_PROBLEM
                  ''Too many clusters (adjust the scc_Clabel type).'')
      else
        (let grown = capacity seed_result + capacity seed_result div 8 + 1024;
             new_capacity = (if clabel_max < grown then clabel_max else grown)
         in if count_seeds seed_result = capacity seed_result \<and> \<not> alloc new_capacity
            then Inl (iscc_make_error SCC_ER_NO_MEMORY)
            else Inr \<lparr>capacity = (if count_seeds seed_result = capacity seed_result
                                  then new_capacity else capacity seed_result),
                      count_seeds = count_seeds seed_result + 1,
                      seeds = take (count_seeds seed_result) (seeds seed_result) @ [s]\<rparr>))"

text \<open>One iteration of the scan of \<^verbatim>\<open>iscc_findseeds_lexical\<close>.\<close>

definition lexical_step ::
  "nat \<Rightarrow> allocator \<Rightarrow> iscc_Digraph \<Rightarrow> nat
   \<Rightarrow> failure + bool list \<times> iscc_SeedResult \<Rightarrow> failure + bool list \<times> iscc_SeedResult" where
  "lexical_step clabel_max alloc nng v r =
     (case r of
        Inl ec \<Rightarrow> Inl ec
      | Inr (marks, out_seeds) \<Rightarrow>
          if iscc_fs_check_neighbors_marks v nng marks
          then (case iscc_fs_add_seed clabel_max alloc v out_seeds of
                  Inl ec \<Rightarrow> Inl ec
                | Inr out_seeds' \<Rightarrow> Inr (iscc_fs_mark_seed_neighbors v nng marks, out_seeds'))
          else Inr (marks, out_seeds))"

definition iscc_findseeds_lexical ::
  "nat \<Rightarrow> allocator \<Rightarrow> iscc_Digraph \<Rightarrow> iscc_SeedResult \<Rightarrow> failure + iscc_SeedResult" where
  "iscc_findseeds_lexical clabel_max alloc nng out_seeds =
     (if \<not> alloc (vertices nng) \<or> \<not> alloc (capacity out_seeds)
      then Inl (iscc_make_error SCC_ER_NO_MEMORY)
      else
        (case fold (lexical_step clabel_max alloc nng) [0..<vertices nng]
                (Inr (replicate (vertices nng) False, out_seeds\<lparr>seeds := []\<rparr>)) of
           Inl ec \<Rightarrow> Inl ec
         | Inr (marks, out_seeds') \<Rightarrow> Inr out_seeds'))"

text \<open>
  \<^verbatim>\<open>iscc_fs_sort_by_inwards\<close>: count the arcs into each vertex, find the largest count,
  count the vertices of each bucket, turn the bucket sizes into bucket ends, and place the
  vertices from the last to the first, each at \<^verbatim>\<open>--bucket_index[count]\<close>.
\<close>

definition place_vertex ::
  "nat list \<Rightarrow> nat \<Rightarrow> nat list \<times> nat list \<times> nat list \<Rightarrow> nat list \<times> nat list \<times> nat list" where
  "place_vertex inwards_count_a v =
     (\<lambda>(bucket_index_a, sorted_vertices_a, vertex_index_a).
        let k = inwards_count_a ! v;
            b = bucket_index_a[k := bucket_index_a ! k - 1]
        in (b, sorted_vertices_a[b ! k := v], vertex_index_a[v := b ! k]))"

definition iscc_fs_sort_by_inwards ::
  "allocator \<Rightarrow> iscc_Digraph \<Rightarrow> bool \<Rightarrow> failure + iscc_fs_SortResult" where
  "iscc_fs_sort_by_inwards alloc nng make_indices =
     (let n = vertices nng in
      if \<not> alloc n then Inl (iscc_make_error SCC_ER_NO_MEMORY)
      else
        (let inwards_count_a = fold (\<lambda>arc c. c[arc := c ! arc + 1]) (all_arcs nng) (replicate n 0);
             max_inwards = fold (\<lambda>c m. if m < c then c else m) inwards_count_a 0
         in if \<not> alloc (max_inwards + 1) then Inl (iscc_make_error SCC_ER_NO_MEMORY)
            else
              (let bucket_count =
                     fold (\<lambda>v b. b[inwards_count_a ! v := b ! (inwards_count_a ! v) + 1]) [0..<n]
                       (replicate (max_inwards + 1) 0);
                   bucket_ends =
                     fold (\<lambda>b bi. bi[b := bi ! (b - 1) + bucket_count ! b]) [1..<max_inwards + 1]
                       ((replicate (max_inwards + 1) 0)[0 := bucket_count ! 0])
               in if make_indices
                  then
                    (if \<not> alloc n then Inl (iscc_make_error SCC_ER_NO_MEMORY)
                     else
                       (case fold (place_vertex inwards_count_a) (rev [0..<n])
                               (bucket_ends, replicate n 0, replicate n 0) of
                          (bucket_index_a, sorted_vertices_a, vertex_index_a) \<Rightarrow>
                            Inr \<lparr>inwards_count = inwards_count_a,
                                 sorted_vertices = sorted_vertices_a,
                                 vertex_index = vertex_index_a,
                                 bucket_index = bucket_index_a\<rparr>))
                  else
                    (case fold (place_vertex inwards_count_a) (rev [0..<n])
                            (bucket_ends, replicate n 0, replicate n 0) of
                       (bucket_index_a, sorted_vertices_a, vertex_index_a) \<Rightarrow>
                         Inr \<lparr>inwards_count = [], sorted_vertices = sorted_vertices_a,
                              vertex_index = [], bucket_index = []\<rparr>))))"

text \<open>
  \<^verbatim>\<open>iscc_fs_decrease_v_in_sort\<close>, as compiled without \<^verbatim>\<open>SCC_STABLE_FINDSEED\<close> (the
  default) and without assertions. \<open>current_pos\<close> is the offset of the scan cursor.
\<close>

definition iscc_fs_decrease_v_in_sort ::
  "nat \<Rightarrow> iscc_fs_SortResult \<Rightarrow> nat \<Rightarrow> iscc_fs_SortResult" where
  "iscc_fs_decrease_v_in_sort v_to_decrease srt current_pos =
     (let k = inwards_count srt ! v_to_decrease;
          move_from = vertex_index srt ! v_to_decrease;
          retarget = (bucket_index srt ! k \<le> current_pos);
          move_to = (if retarget then current_pos + 1 else bucket_index srt ! k);
          bucket_index1 =
            (if retarget then (bucket_index srt)[k - 1 := move_to] else bucket_index srt);
          bucket_index2 = bucket_index1[k := move_to + 1];
          inwards_count1 = (inwards_count srt)[v_to_decrease := k - 1];
          sorted1 = (sorted_vertices srt)[move_from := sorted_vertices srt ! move_to];
          sorted2 = sorted1[move_to := v_to_decrease];
          vertex_index1 = (vertex_index srt)[sorted2 ! move_to := move_to];
          vertex_index2 = vertex_index1[sorted2 ! move_from := move_from]
      in \<lparr>inwards_count = inwards_count1, sorted_vertices = sorted2,
          vertex_index = vertex_index2, bucket_index = bucket_index2\<rparr>)"

text \<open>
  The accesses of \<^verbatim>\<open>iscc_fs_decrease_v_in_sort\<close> stay inside the arrays, and the count
  it decrements is positive (so that neither \<^verbatim>\<open>bucket_index[count - 1]\<close> nor the
  decrement leaves the range).
\<close>

definition decrease_defined :: "nat \<Rightarrow> iscc_fs_SortResult \<Rightarrow> nat \<Rightarrow> bool" where
  "decrease_defined v_to_decrease srt current_pos =
     (v_to_decrease < length (inwards_count srt)
      \<and> v_to_decrease < length (vertex_index srt)
      \<and> 0 < inwards_count srt ! v_to_decrease
      \<and> inwards_count srt ! v_to_decrease < length (bucket_index srt)
      \<and> vertex_index srt ! v_to_decrease < length (sorted_vertices srt)
      \<and> (let move_to =
              (if bucket_index srt ! (inwards_count srt ! v_to_decrease) \<le> current_pos
               then current_pos + 1
               else bucket_index srt ! (inwards_count srt ! v_to_decrease))
         in move_to < length (sorted_vertices srt)
            \<and> sorted_vertices srt ! move_to < length (vertex_index srt)))"

text \<open>
  The guarded decrement of the updating scans:
  \<^verbatim>\<open>if (!marks[b] && (sorted_v < srt.vertex_index[b]) && (tail_ptr[b] != tail_ptr[b + 1]))\<close>
  \<^verbatim>\<open>iscc_fs_decrease_v_in_sort(b, ..., sorted_v)\<close>.
\<close>

definition decrease_if_candidate ::
  "iscc_Digraph \<Rightarrow> bool list \<Rightarrow> nat \<Rightarrow> nat
   \<Rightarrow> failure + iscc_fs_SortResult \<Rightarrow> failure + iscc_fs_SortResult" where
  "decrease_if_candidate nng marks current_pos b r =
     (case r of
        Inl ec \<Rightarrow> Inl ec
      | Inr srt \<Rightarrow>
          if \<not> marks ! b \<and> current_pos < vertex_index srt ! b
             \<and> tail_ptr nng ! b \<noteq> tail_ptr nng ! Suc b
          then (if decrease_defined b srt current_pos
                then Inr (iscc_fs_decrease_v_in_sort b srt current_pos)
                else Inl Undefined)
          else Inr srt)"

text \<open>
  One iteration of the scan of \<^verbatim>\<open>iscc_findseeds_inwards\<close>, at offset \<open>p\<close> of
  \<^verbatim>\<open>sorted_vertices\<close>.
\<close>

definition inwards_step ::
  "nat \<Rightarrow> allocator \<Rightarrow> iscc_Digraph \<Rightarrow> bool \<Rightarrow> nat
   \<Rightarrow> failure + iscc_fs_SortResult \<times> bool list \<times> iscc_SeedResult
   \<Rightarrow> failure + iscc_fs_SortResult \<times> bool list \<times> iscc_SeedResult" where
  "inwards_step clabel_max alloc nng updating p r =
     (case r of
        Inl ec \<Rightarrow> Inl ec
      | Inr (srt, marks, out_seeds) \<Rightarrow>
          (let v = sorted_vertices srt ! p in
           if iscc_fs_check_neighbors_marks v nng marks
           then
             (case iscc_fs_add_seed clabel_max alloc v out_seeds of
                Inl ec \<Rightarrow> Inl ec
              | Inr out_seeds' \<Rightarrow>
                  (let marks' = iscc_fs_mark_seed_neighbors v nng marks in
                   if updating
                   then
                     (case fold (\<lambda>v_arc. fold (decrease_if_candidate nng marks' p)
                                             (out_row nng v_arc))
                             (out_row nng v) (Inr srt) of
                        Inl ec \<Rightarrow> Inl ec
                      | Inr srt' \<Rightarrow> Inr (srt', marks', out_seeds'))
                   else Inr (srt, marks', out_seeds')))
           else Inr (srt, marks, out_seeds)))"

definition iscc_findseeds_inwards ::
  "nat \<Rightarrow> allocator \<Rightarrow> iscc_Digraph \<Rightarrow> bool \<Rightarrow> iscc_SeedResult \<Rightarrow> failure + iscc_SeedResult" where
  "iscc_findseeds_inwards clabel_max alloc nng updating out_seeds =
     (case iscc_fs_sort_by_inwards alloc nng updating of
        Inl ec \<Rightarrow> Inl ec
      | Inr srt \<Rightarrow>
          if \<not> alloc (vertices nng) \<or> \<not> alloc (capacity out_seeds)
          then Inl (iscc_make_error SCC_ER_NO_MEMORY)
          else
            (case fold (inwards_step clabel_max alloc nng updating) [0..<vertices nng]
                    (Inr (srt, replicate (vertices nng) False, out_seeds\<lparr>seeds := []\<rparr>)) of
               Inl ec \<Rightarrow> Inl ec
             | Inr (srt', marks, out_seeds') \<Rightarrow> Inr out_seeds'))"

text \<open>One iteration of the scan of \<^verbatim>\<open>iscc_findseeds_inwards_alt\<close>.\<close>

definition inwards_alt_step ::
  "nat \<Rightarrow> allocator \<Rightarrow> iscc_Digraph \<Rightarrow> nat
   \<Rightarrow> failure + iscc_fs_SortResult \<times> bool list \<times> iscc_SeedResult
   \<Rightarrow> failure + iscc_fs_SortResult \<times> bool list \<times> iscc_SeedResult" where
  "inwards_alt_step clabel_max alloc nng p r =
     (case r of
        Inl ec \<Rightarrow> Inl ec
      | Inr (srt, marks, out_seeds) \<Rightarrow>
          (let v = sorted_vertices srt ! p in
           if iscc_fs_check_neighbors_marks v nng marks
           then
             (case iscc_fs_add_seed clabel_max alloc v out_seeds of
                Inl ec \<Rightarrow> Inl ec
              | Inr out_seeds' \<Rightarrow>
                  (let marks' = iscc_fs_mark_seed_neighbors v nng marks in
                   case fold (\<lambda>v_arc r'.
                                case r' of
                                  Inl ec \<Rightarrow> Inl ec
                                | Inr s \<Rightarrow>
                                    if p < vertex_index s ! v_arc
                                    then fold (decrease_if_candidate nng marks' p)
                                           (out_row nng v_arc) (Inr s)
                                    else Inr s)
                          (out_row nng v) (Inr srt) of
                     Inl ec \<Rightarrow> Inl ec
                   | Inr srt' \<Rightarrow> Inr (srt', marks', out_seeds')))
           else if \<not> marks ! v
           then
             (case fold (decrease_if_candidate nng marks p) (out_row nng v) (Inr srt) of
                Inl ec \<Rightarrow> Inl ec
              | Inr srt' \<Rightarrow> Inr (srt', marks, out_seeds))
           else Inr (srt, marks, out_seeds)))"

definition iscc_findseeds_inwards_alt ::
  "nat \<Rightarrow> allocator \<Rightarrow> iscc_Digraph \<Rightarrow> iscc_SeedResult \<Rightarrow> failure + iscc_SeedResult" where
  "iscc_findseeds_inwards_alt clabel_max alloc nng out_seeds =
     (case iscc_fs_sort_by_inwards alloc nng True of
        Inl ec \<Rightarrow> Inl ec
      | Inr srt \<Rightarrow>
          if \<not> alloc (vertices nng) \<or> \<not> alloc (capacity out_seeds)
          then Inl (iscc_make_error SCC_ER_NO_MEMORY)
          else
            (case fold (inwards_alt_step clabel_max alloc nng) [0..<vertices nng]
                    (Inr (srt, replicate (vertices nng) False, out_seeds\<lparr>seeds := []\<rparr>)) of
               Inl ec \<Rightarrow> Inl ec
             | Inr (srt', marks, out_seeds') \<Rightarrow> Inr out_seeds'))"


text \<open>
  Modelled from the spec: \<^verbatim>\<open>iscc_fs_exclusion_graph\<close> calls a union-and-delete that
  receives the kept tails as a list of vertex indices with its length, and an adjacency
  product with a single flag; the operators among the sources take a Boolean array
  \<open>tails_to_keep\<close> and two flags. The index list is turned into that array (a length of
  zero standing for "keep every tail"), and the single flag is \<open>force_loops\<close>.
\<close>

definition tails_to_keep_of :: "nat \<Rightarrow> nat \<Rightarrow> nat list \<Rightarrow> bool list" where
  "tails_to_keep_of n len_not_excluded not_excluded =
     (if len_not_excluded = 0 then replicate n True
      else map (\<lambda>v. v \<in> set (take len_not_excluded not_excluded)) [0..<n])"

definition iscc_fs_exclusion_graph ::
  "allocator \<Rightarrow> iscc_Digraph \<Rightarrow> nat \<Rightarrow> nat list \<Rightarrow> failure + iscc_Digraph" where
  "iscc_fs_exclusion_graph alloc nng len_not_excluded not_excluded =
     (case iscc_digraph_transpose alloc nng of
        Inl ec \<Rightarrow> Inl ec
      | Inr nng_transpose \<Rightarrow>
          (case iscc_adjacency_product alloc nng nng_transpose True False of
             Inl ec \<Rightarrow> Inl ec
           | Inr nng_nng_transpose \<Rightarrow>
               iscc_digraph_union_and_delete alloc [nng, nng_nng_transpose]
                 (tails_to_keep_of (vertices nng) len_not_excluded not_excluded)))"

text \<open>
  The first pass of the updating exclusion scan over the row of the seed, positions
  \<open>tail_ptr[v]\<close> up to \<open>tail_ptr[v + 1]\<close> of the exclusion graph's \<open>head\<close>: a neighbour
  that is not yet excluded is copied to the write position (the row is its own scratch
  area), and every neighbour is excluded. The state is \<open>(head, write_arc, not_excluded)\<close>.
\<close>

definition exclude_and_record ::
  "nat \<Rightarrow> nat list \<times> nat \<times> bool list \<Rightarrow> nat list \<times> nat \<times> bool list" where
  "exclude_and_record ex_arc =
     (\<lambda>(ex_head, write_arc, not_excluded).
        let x = ex_head ! ex_arc
        in if not_excluded ! x
           then (ex_head[write_arc := x], write_arc + 1, not_excluded[x := False])
           else (ex_head, write_arc, not_excluded[x := False]))"

text \<open>The second pass: \<^verbatim>\<open>if (not_excluded[b]) iscc_fs_decrease_v_in_sort(b, ..., sorted_v)\<close>.\<close>

definition decrease_if_not_excluded ::
  "bool list \<Rightarrow> nat \<Rightarrow> nat \<Rightarrow> failure + iscc_fs_SortResult \<Rightarrow> failure + iscc_fs_SortResult" where
  "decrease_if_not_excluded not_excluded current_pos b r =
     (case r of
        Inl ec \<Rightarrow> Inl ec
      | Inr srt \<Rightarrow>
          if not_excluded ! b
          then (if decrease_defined b srt current_pos
                then Inr (iscc_fs_decrease_v_in_sort b srt current_pos)
                else Inl Undefined)
          else Inr srt)"

text \<open>One iteration of the scan of \<^verbatim>\<open>iscc_findseeds_exclusion\<close>.\<close>

definition exclusion_step ::
  "nat \<Rightarrow> allocator \<Rightarrow> bool \<Rightarrow> nat
   \<Rightarrow> failure + iscc_Digraph \<times> iscc_fs_SortResult \<times> bool list \<times> iscc_SeedResult
   \<Rightarrow> failure + iscc_Digraph \<times> iscc_fs_SortResult \<times> bool list \<times> iscc_SeedResult" where
  "exclusion_step clabel_max alloc updating p r =
     (case r of
        Inl ec \<Rightarrow> Inl ec
      | Inr (exclusion_graph, srt, not_excluded, out_seeds) \<Rightarrow>
          (let v = sorted_vertices srt ! p in
           if not_excluded ! v
           then
             (case iscc_fs_add_seed clabel_max alloc v out_seeds of
                Inl ec \<Rightarrow> Inl ec
              | Inr out_seeds' \<Rightarrow>
                  (let not_excluded1 = not_excluded[v := False] in
                   if \<not> updating
                   then Inr (exclusion_graph, srt,
                             fold (\<lambda>ex_arc ne. ne[ex_arc := False])
                               (out_row exclusion_graph v) not_excluded1,
                             out_seeds')
                   else
                     (case fold exclude_and_record
                             [tail_ptr exclusion_graph ! v..<tail_ptr exclusion_graph ! Suc v]
                             (head exclusion_graph, tail_ptr exclusion_graph ! v, not_excluded1) of
                        (ex_head, write_arc, not_excluded2) \<Rightarrow>
                          (let exclusion_graph' = exclusion_graph\<lparr>head := ex_head\<rparr> in
                           case fold (\<lambda>ex_arc.
                                        fold (decrease_if_not_excluded not_excluded2 p)
                                          (out_row exclusion_graph' (ex_head ! ex_arc)))
                                  [tail_ptr exclusion_graph ! v..<write_arc] (Inr srt) of
                             Inl ec \<Rightarrow> Inl ec
                           | Inr srt' \<Rightarrow>
                               Inr (exclusion_graph', srt', not_excluded2, out_seeds')))))
           else Inr (exclusion_graph, srt, not_excluded, out_seeds)))"

text \<open>
  \<^verbatim>\<open>iscc_findseeds_exclusion\<close>. When the allocation of the temporary index list is
  refused the source records the error but does not return, and goes on to write through
  the null pointer: \<open>Undefined\<close>.
\<close>

definition iscc_findseeds_exclusion ::
  "nat \<Rightarrow> allocator \<Rightarrow> iscc_Digraph \<Rightarrow> bool \<Rightarrow> iscc_SeedResult \<Rightarrow> failure + iscc_SeedResult" where
  "iscc_findseeds_exclusion clabel_max alloc nng updating out_seeds =
     (let n = vertices nng in
      if \<not> alloc n then Inl (iscc_make_error SCC_ER_NO_MEMORY)
      else if \<not> alloc n then Inl Undefined
      else
        (let not_excluded = map (\<lambda>v. tail_ptr nng ! v \<noteq> tail_ptr nng ! Suc v) [0..<n];
             (tmp_index_not_excluded, tmp_num_not_excluded) =
               fold (\<lambda>v (idx, num). (idx[num := v], num + (if not_excluded ! v then 1 else 0)))
                 [0..<n] (replicate n 0, 0);
             (len_not_excluded, index_not_excluded) =
               (if tmp_num_not_excluded = n then (0, [])
                else (tmp_num_not_excluded, tmp_index_not_excluded))
         in case iscc_fs_exclusion_graph alloc nng len_not_excluded index_not_excluded of
              Inl ec \<Rightarrow> Inl ec
            | Inr exclusion_graph \<Rightarrow>
                (case iscc_fs_sort_by_inwards alloc exclusion_graph updating of
                   Inl ec \<Rightarrow> Inl ec
                 | Inr srt \<Rightarrow>
                     if \<not> alloc (capacity out_seeds)
                     then Inl (iscc_make_error SCC_ER_NO_MEMORY)
                     else
                       (case fold (exclusion_step clabel_max alloc updating) [0..<n]
                               (Inr (exclusion_graph, srt, not_excluded,
                                     out_seeds\<lparr>seeds := []\<rparr>)) of
                          Inl ec \<Rightarrow> Inl ec
                        | Inr (exclusion_graph', srt', not_excluded', out_seeds') \<Rightarrow>
                            Inr out_seeds'))))"

text \<open>The \<^verbatim>\<open>switch\<close> of \<^verbatim>\<open>iscc_find_seeds\<close> over the seed method.\<close>

definition run_seed_method ::
  "nat \<Rightarrow> allocator \<Rightarrow> iscc_Digraph \<Rightarrow> scc_SeedMethod \<Rightarrow> iscc_SeedResult
   \<Rightarrow> failure + iscc_SeedResult" where
  "run_seed_method clabel_max alloc nng seed_method out_seeds =
     (case seed_method of
        SCC_SM_LEXICAL \<Rightarrow> iscc_findseeds_lexical clabel_max alloc nng out_seeds
      | SCC_SM_INWARDS_ORDER \<Rightarrow> iscc_findseeds_inwards clabel_max alloc nng False out_seeds
      | SCC_SM_INWARDS_UPDATING \<Rightarrow> iscc_findseeds_inwards clabel_max alloc nng True out_seeds
      | SCC_SM_INWARDS_ALT_UPDATING \<Rightarrow> iscc_findseeds_inwards_alt clabel_max alloc nng out_seeds
      | SCC_SM_EXCLUSION_ORDER \<Rightarrow> iscc_findseeds_exclusion clabel_max alloc nng False out_seeds
      | SCC_SM_EXCLUSION_UPDATING \<Rightarrow>
          iscc_findseeds_exclusion clabel_max alloc nng True out_seeds)"

text \<open>
  \<^verbatim>\<open>iscc_find_seeds\<close>. \<open>shrink_ok\<close> tells whether the final \<^verbatim>\<open>realloc\<close> of the seed
  array to \<^verbatim>\<open>count\<close> entries is granted.
\<close>

definition iscc_find_seeds ::
  "nat \<Rightarrow> allocator \<Rightarrow> bool \<Rightarrow> iscc_Digraph \<Rightarrow> scc_SeedMethod \<Rightarrow> iscc_SeedResult
   \<Rightarrow> failure + iscc_SeedResult" where
  "iscc_find_seeds clabel_max alloc shrink_ok nng seed_method out_seeds =
     (case run_seed_method clabel_max alloc nng seed_method out_seeds of
        Inl ec \<Rightarrow> Inl ec
      | Inr found \<Rightarrow>
          if count_seeds found < capacity found \<and> 0 < count_seeds found
          then (if shrink_ok
                then Inr (found\<lparr>seeds := take (count_seeds found) (seeds found),
                                capacity := count_seeds found\<rparr>)
                else Inr found)
          else Inr found)"

text \<open>The closed out-neighbourhood \<open>{v} \<union> out(v)\<close> of a vertex.\<close>

definition closed_nbhd :: "iscc_Digraph \<Rightarrow> nat \<Rightarrow> nat set" where
  "closed_nbhd nng v = insert v (set (out_row nng v))"


section \<open>Batch clusterer (nng\_batch\_clustering.c)\<close>

text \<open>
  The clustering object, with the fields the batch clusterer touches. The label limit
  \<^verbatim>\<open>SCC_CLABEL_MAX\<close> is the parameter \<open>clabel_max\<close>, and the label of an unassigned
  point, \<^verbatim>\<open>SCC_CLABEL_NA\<close>, has the same value, as in \<^verbatim>\<open>scclust.h\<close>.
\<close>

record scc_Clustering =
  num_data_points :: nat
  num_clusters :: nat
  cluster_label :: "nat list"
  external_labels :: bool

text \<open>
  The nearest-neighbour search is an external collaborator. Given the queries
  \<^verbatim>\<open>batch_indices[0 .. in_batch)\<close> it either fails (\<open>None\<close>) or returns the queries it
  accepted, which it writes back to \<^verbatim>\<open>batch_indices\<close> (\<^verbatim>\<open>num_ok_in_batch\<close> is
  their number), together with the contents of \<^verbatim>\<open>out_indices\<close>; row \<open>i\<close> of
  \<^verbatim>\<open>out_indices\<close> is the slice of \<open>size_constraint\<close> entries starting at
  \<open>i * size_constraint\<close>.
\<close>

type_synonym nn_search = "nat list \<Rightarrow> (nat list \<times> nat list) option"

text \<open>
  Filling a batch:
  \<^verbatim>\<open>for (; (in_batch < batch_size) && (curr_point < num_data_points); ++curr_point)\<close>,
  in its two variants without and with an array of primary data points. The state is the
  labels and the batch collected so far; the result adds the point at which the loop
  stopped.
\<close>

function fill_batch ::
  "nat \<Rightarrow> bool list option \<Rightarrow> nat \<Rightarrow> nat \<Rightarrow> bool list \<Rightarrow> nat \<Rightarrow> nat list \<times> nat list
   \<Rightarrow> nat \<times> nat list \<times> nat list" where
  "fill_batch clabel_max primary_data_points batch_size n assigned curr_point (labels, batch) =
     (if length batch < batch_size \<and> curr_point < n
      then
        (if \<not> assigned ! curr_point
         then
           (case primary_data_points of
              None \<Rightarrow>
                fill_batch clabel_max primary_data_points batch_size n assigned (curr_point + 1)
                  (labels[curr_point := clabel_max], batch @ [curr_point])
            | Some primary \<Rightarrow>
                if primary ! curr_point
                then fill_batch clabel_max primary_data_points batch_size n assigned
                       (curr_point + 1) (labels[curr_point := clabel_max], batch @ [curr_point])
                else fill_batch clabel_max primary_data_points batch_size n assigned
                       (curr_point + 1) (labels[curr_point := clabel_max], batch))
         else fill_batch clabel_max primary_data_points batch_size n assigned (curr_point + 1)
                (labels, batch))
      else (curr_point, labels, batch))"
  by pat_completeness auto
termination
  by (relation "measure (\<lambda>(c, p, b, n, a, curr_point, s). n - curr_point)") auto

declare fill_batch.simps [simp del]

definition assign_point :: "nat \<Rightarrow> nat \<Rightarrow> bool list \<times> nat list \<Rightarrow> bool list \<times> nat list" where
  "assign_point label x =
     (\<lambda>(assigned, labels). (assigned[x := True], labels[x := label]))"

text \<open>
  The body of the loop over the accepted rows, for the query \<open>batch_indices[i]\<close> and its
  row. The state is \<open>(assigned, cluster_label, next_cluster_label)\<close>.
\<close>

definition process_row ::
  "nat \<Rightarrow> nat \<Rightarrow> bool \<Rightarrow> nat \<Rightarrow> nat list \<Rightarrow> bool list \<times> nat list \<times> nat
   \<Rightarrow> failure + bool list \<times> nat list \<times> nat" where
  "process_row clabel_max size_constraint ignore_unassigned query row =
     (\<lambda>(assigned, labels, next_cluster_label).
        if \<not> assigned ! query
        then
          (case dropWhile (\<lambda>x. \<not> assigned ! x) row of
             [] \<Rightarrow>
               if next_cluster_label = clabel_max
               then Inl (iscc_make_error_msg SCC_ER_TOO_LARGE_PROBLEM
                           ''Too many clusters (adjust the scc_Clabel type).'')
               else
                 (let s1 = fold (assign_point next_cluster_label)
                             (take (size_constraint - 1) row) (assigned, labels);
                      s2 = (if fst s1 ! query
                            then assign_point next_cluster_label
                                   (row ! (size_constraint - 1)) s1
                            else assign_point next_cluster_label query s1)
                  in Inr (fst s2, snd s2, next_cluster_label + 1))
           | x # rest \<Rightarrow>
               if \<not> ignore_unassigned
               then Inr (assigned, labels[query := labels ! x], next_cluster_label)
               else Inr (assigned, labels, next_cluster_label))
        else Inr (assigned, labels, next_cluster_label))"

definition process_rows ::
  "nat \<Rightarrow> nat \<Rightarrow> bool \<Rightarrow> nat list \<Rightarrow> nat list \<Rightarrow> bool list \<times> nat list \<times> nat
   \<Rightarrow> failure + bool list \<times> nat list \<times> nat" where
  "process_rows clabel_max size_constraint ignore_unassigned batch_indices out_indices s =
     fold (\<lambda>i r. case r of
                    Inl ec \<Rightarrow> Inl ec
                  | Inr s' \<Rightarrow>
                      process_row clabel_max size_constraint ignore_unassigned
                        (batch_indices ! i)
                        (take size_constraint (drop (i * size_constraint) out_indices)) s')
          [0..<length batch_indices] (Inr s)"

lemma fill_batch_advances:
  "fill_batch c p b n a curr_point s = (curr', labels', batch') \<Longrightarrow>
   curr_point \<le> curr' \<and> (length (snd s) < length batch' \<longrightarrow> curr_point < curr')"
proof (induction c p b n a curr_point s rule: fill_batch.induct)
  case (1 c p b n a curr_point labels batch)
  show ?case
  proof (cases "length batch < b \<and> curr_point < n")
    case False
    with "1.prems" show ?thesis by (simp add: fill_batch.simps)
  next
    case True
    with "1.prems" "1.IH" show ?thesis
      by (subst (asm) fill_batch.simps)
         (fastforce split: if_splits option.splits)
  qed
qed

text \<open>
  The loop between batches. The state is
  \<open>(assigned, cluster_label, next_cluster_label, search_done)\<close>.
\<close>

function run_batches ::
  "nat \<Rightarrow> nn_search \<Rightarrow> nat \<Rightarrow> bool \<Rightarrow> bool list option \<Rightarrow> nat \<Rightarrow> nat \<Rightarrow> nat
   \<Rightarrow> bool list \<times> nat list \<times> nat \<times> bool
   \<Rightarrow> failure + bool list \<times> nat list \<times> nat \<times> bool" where
  "run_batches clabel_max search size_constraint ignore_unassigned primary_data_points
     batch_size n curr_point (assigned, labels, next_cluster_label, search_done) =
     (if curr_point < n
      then
        (case fill_batch clabel_max primary_data_points batch_size n assigned curr_point
                (labels, []) of
           (curr_point', labels', batch) \<Rightarrow>
             if batch = [] then Inr (assigned, labels', next_cluster_label, search_done)
             else
               (case search batch of
                  None \<Rightarrow> Inl (iscc_make_error SCC_ER_DIST_SEARCH_ERROR)
                | Some (batch_indices, out_indices) \<Rightarrow>
                    (case process_rows clabel_max size_constraint ignore_unassigned
                            batch_indices out_indices (assigned, labels', next_cluster_label) of
                       Inl ec \<Rightarrow> Inl ec
                     | Inr (assigned', labels'', next_cluster_label') \<Rightarrow>
                         run_batches clabel_max search size_constraint ignore_unassigned
                           primary_data_points batch_size n curr_point'
                           (assigned', labels'', next_cluster_label', True))))
      else Inr (assigned, labels, next_cluster_label, search_done))"
  by pat_completeness auto
termination
  apply (relation "measure (\<lambda>(c, s, k, i, p, b, n, curr_point, st). n - curr_point)")
   apply simp
  apply (auto dest!: fill_batch_advances [OF sym])
  done

declare run_batches.simps [simp del]

text \<open>
  \<^verbatim>\<open>iscc_run_nng_batches\<close>. The oracle object, the radius and the scratch buffers are
  inside \<open>search\<close>; \<open>assigned\<close> is the array the caller allocated.
\<close>

definition iscc_run_nng_batches ::
  "nat \<Rightarrow> nn_search \<Rightarrow> scc_Clustering \<Rightarrow> nat \<Rightarrow> bool \<Rightarrow> bool list option \<Rightarrow> nat \<Rightarrow> bool list
   \<Rightarrow> failure + scc_Clustering" where
  "iscc_run_nng_batches clabel_max search clustering size_constraint ignore_unassigned
     primary_data_points batch_size assigned =
     (case run_batches clabel_max search size_constraint ignore_unassigned primary_data_points
             batch_size (num_data_points clustering) 0
             (assigned, cluster_label clustering, 0, False) of
        Inl ec \<Rightarrow> Inl ec
      | Inr (assigned', labels, next_cluster_label, search_done) \<Rightarrow>
          if next_cluster_label = 0
          then (if \<not> search_done
                then Inl (iscc_make_error_msg SCC_ER_NO_SOLUTION ''No primary data points.'')
                else Inl (iscc_make_error_msg SCC_ER_NO_SOLUTION
                            ''Infeasible radius constraint.''))
          else Inr (clustering\<lparr>cluster_label := labels, num_clusters := next_cluster_label\<rparr>))"


section \<open>Notions used in the statements\<close>

text \<open>
  The bookkeeping of a seed list: the count is within the label limit and the written
  part of the buffer has exactly \<open>count\<close> entries.
\<close>

definition seeds_inv :: "nat \<Rightarrow> iscc_SeedResult \<Rightarrow> bool" where
  "seeds_inv clabel_max sr =
     (count_seeds sr \<le> clabel_max \<and> length (seeds sr) = count_seeds sr)"

text \<open>
  A point is a candidate for a batch when it is unassigned and, if an array of primary
  data points is supplied, marked in it.
\<close>

definition batch_candidate :: "bool list option \<Rightarrow> bool list \<Rightarrow> nat \<Rightarrow> bool" where
  "batch_candidate primary_data_points assigned p =
     (\<not> assigned ! p \<and> (case primary_data_points of None \<Rightarrow> True | Some pm \<Rightarrow> pm ! p))"

definition too_many_clusters :: failure where
  "too_many_clusters =
     iscc_make_error_msg SCC_ER_TOO_LARGE_PROBLEM
       ''Too many clusters (adjust the scc_Clabel type).''"

text \<open>
  The points that a successful row labels: all of the row when the query is one of its own
  neighbours, and otherwise the query together with all neighbours but the last.
\<close>

definition seed_members :: "nat \<Rightarrow> nat list \<Rightarrow> nat set" where
  "seed_members query row =
     (if query \<in> set row then set row else insert query (set (butlast row)))"

text \<open>Inputs for the concrete evaluations below.\<close>

definition two_triangles :: iscc_Digraph where
  "two_triangles =
     \<lparr>vertices = 6, max_arcs = 12, head = [1, 2, 0, 2, 0, 1, 4, 5, 3, 5, 3, 4],
      tail_ptr = [0, 2, 4, 6, 8, 10, 12]\<rparr>"


definition line_neighbours :: "nat \<Rightarrow> nat list" where
  "line_neighbours q = (if q = 0 then [0, 1, 2] else if q = 9 then [9, 8, 7] else [q, q - 1, q + 1])"

definition line_search :: nn_search where
  "line_search queries = Some (queries, concat (map line_neighbours queries))"

definition line_clustering :: scc_Clustering where
  "line_clustering =
     \<lparr>num_data_points = 10, num_clusters = 0, cluster_label = replicate 10 0,
      external_labels = False\<rparr>"


section \<open>Notions for the digraph algebra\<close>

text \<open>The digraph whose rows are the given lists.\<close>

definition csr_of :: "nat list list \<Rightarrow> iscc_Digraph" where
  "csr_of rows =
     \<lparr>vertices = length rows, max_arcs = length (concat rows), head = concat rows,
      tail_ptr = map (\<lambda>v. length (concat (take v rows))) [0..<Suc (length rows)]\<rparr>"

text \<open>The first occurrences in a list of the elements outside a set already seen.\<close>

fun first_occ :: "nat set \<Rightarrow> nat list \<Rightarrow> nat list" where
  "first_occ seen [] = []"
| "first_occ seen (x # xs) =
     (if x \<in> seen then first_occ seen xs else x # first_occ (insert x seen) xs)"

definition markers_ok :: "nat \<Rightarrow> nat \<Rightarrow> nat list \<Rightarrow> bool" where
  "markers_ok n v m = (length m = n \<and> (\<forall>x<n. m ! x = SCC_DPID_NA \<or> m ! x < v))"


definition difference_rows_of :: "iscc_Digraph \<Rightarrow> iscc_Digraph \<Rightarrow> nat \<Rightarrow> nat \<Rightarrow> nat list" where
  "difference_rows_of minuend subtrahend max_out_degree v =
     take max_out_degree
       (filter (\<lambda>a. a \<noteq> v \<and> a \<notin> set (out_row subtrahend v)) (out_row minuend v))"



definition two_cycle :: iscc_Digraph where
  "two_cycle = \<lparr>vertices = 2, max_arcs = 2, head = [1, 0], tail_ptr = [0, 1, 2]\<rparr>"

definition no_arcs2 :: iscc_Digraph where
  "no_arcs2 = \<lparr>vertices = 2, max_arcs = 0, head = [], tail_ptr = [0, 0, 0]\<rparr>"

definition loop_and_arc :: iscc_Digraph where
  "loop_and_arc = \<lparr>vertices = 2, max_arcs = 2, head = [0, 1], tail_ptr = [0, 2, 2]\<rparr>"

definition double_arc :: iscc_Digraph where
  "double_arc = \<lparr>vertices = 2, max_arcs = 2, head = [1, 1], tail_ptr = [0, 2, 2]\<rparr>"


section \<open>Notions for the sort index\<close>




section \<open>Notions for the transpose\<close>

text \<open>
  Counting sort by scattering. A list of (value, key) pairs is scattered into an array by
  decrementing the end pointer of the key's bucket and storing the value there.
\<close>

definition sources_of :: "(nat \<times> nat) list \<Rightarrow> nat \<Rightarrow> nat list" where
  "sources_of ps x = map fst (filter (\<lambda>p. snd p = x) ps)"

definition bucket_row :: "(nat \<times> nat) list \<Rightarrow> nat \<Rightarrow> nat list" where
  "bucket_row ps x = rev (sources_of ps x)"

definition bucket_start :: "(nat \<times> nat) list \<Rightarrow> nat \<Rightarrow> nat" where
  "bucket_start ps x = length (concat (map (bucket_row ps) [0..<x]))"

text \<open>The state after scattering the prefix \<open>ps\<close> of all pairs \<open>all\<close> with keys below \<open>K\<close>.\<close>

definition scattered ::
  "nat \<Rightarrow> (nat \<times> nat) list \<Rightarrow> (nat \<times> nat) list \<Rightarrow> nat list \<Rightarrow> nat list \<times> nat list \<Rightarrow> bool" where
  "scattered K all ps t0 s =
     (case s of (t, h) \<Rightarrow>
        length t = length t0 \<and> length h = bucket_start all K
        \<and> (\<forall>x<K. t ! x + length (sources_of ps x) = bucket_start all (Suc x)
                  \<and> take (length (sources_of ps x)) (drop (t ! x) h) = rev (sources_of ps x))
        \<and> (\<forall>y\<ge>K. t ! y = t0 ! y))"

text \<open>The arcs of a digraph as (tail, head) pairs, in storage order.\<close>

definition arc_pairs :: "iscc_Digraph \<Rightarrow> (nat \<times> nat) list" where
  "arc_pairs dg = concat (map (\<lambda>v. map (Pair v) (out_row dg v)) [0..<vertices dg])"

text \<open>The rows of the transpose: the tails of the arcs into \<open>x\<close>, last arc first.\<close>

definition transpose_rows_of :: "iscc_Digraph \<Rightarrow> nat \<Rightarrow> nat list" where
  "transpose_rows_of dg x = bucket_row (arc_pairs dg) x"

definition fan3 :: iscc_Digraph where
  "fan3 = \<lparr>vertices = 3, max_arcs = 3, head = [1, 2, 0], tail_ptr = [0, 2, 2, 3]\<rparr>"

definition fan3_transposed :: iscc_Digraph where
  "fan3_transposed = \<lparr>vertices = 3, max_arcs = 3, head = [2, 0, 0], tail_ptr = [0, 1, 2, 3]\<rparr>"

definition fan3_twice :: iscc_Digraph where
  "fan3_twice = \<lparr>vertices = 3, max_arcs = 3, head = [2, 1, 0], tail_ptr = [0, 2, 2, 3]\<rparr>"


section \<open>Properties of the error carrier\<close>

lemma show_nat_42: "show_nat 42 = ''42''"
  by code_simp

text \<open>
  C9, as the claim states it, fails: with no error recorded and a buffer of five bytes the
  text \<^verbatim>\<open>(scclust) No error.\<close> is cut down to \<^verbatim>\<open>(scc\<close>, yet the function returns true.
\<close>

theorem scc_get_latest_error_truncation_counterexample:
  "scc_get_latest_error iscc_reset_error 5 (Some '''') = (True, Some ''(scc'')
   \<and> \<not> buffer_large_enough 5 (latest_error_text iscc_reset_error)"
  by (simp add: scc_get_latest_error_def iscc_reset_error_def c_snprintf_def
      latest_error_text_def buffer_large_enough_def INT_MAX_def)

text \<open>
  C9, amended: \<^verbatim>\<open>scc_get_latest_error\<close> returns false exactly for a zero-length buffer, a
  null buffer, or a failing \<^verbatim>\<open>snprintf\<close> (a text longer than \<^verbatim>\<open>INT_MAX\<close>); in every other
  case it returns true and leaves in the buffer the longest prefix of the formatted text
  \<^verbatim>\<open>(scclust:<file>:<line>) <message>\<close> (or of the no-error text) that fits,
  whether or not the text was truncated.
\<close>

theorem scc_get_latest_error_result:
  "fst (scc_get_latest_error st n buf) =
     (n \<noteq> 0 \<and> buf \<noteq> None \<and> length (latest_error_text st) \<le> INT_MAX)
   \<and> snd (scc_get_latest_error st n buf) =
     (if n = 0 \<or> buf = None then buf else Some (take (n - 1) (latest_error_text st)))"
  by (auto simp: scc_get_latest_error_def c_snprintf_def)

theorem scc_get_latest_error_result_witness:
  "fst (scc_get_latest_error
          (iscc_make_error_func SCC_ER_NO_MEMORY None ''src/digraph_core.c'' 42) 12 (Some ''''))
   \<and> snd (scc_get_latest_error
          (iscc_make_error_func SCC_ER_NO_MEMORY None ''src/digraph_core.c'' 42) 12 (Some ''''))
     = Some ''(scclust:sr''
   \<and> latest_error_text (iscc_make_error_func SCC_ER_NO_MEMORY None ''src/digraph_core.c'' 42)
     = ''(scclust:src/digraph_core.c:42) Cannot allocate required memory.''"
  using scc_get_latest_error_result
    [of "iscc_make_error_func SCC_ER_NO_MEMORY None ''src/digraph_core.c'' 42" 12 "Some ''''"]
  by (simp add: latest_error_text_def iscc_make_error_func_def default_error_message_def
      show_int_def INT_MAX_def show_nat_42)

section \<open>Folding a fallible step\<close>

lemma fold_Inl:
  assumes "\<And>x e. f x (Inl e) = Inl e"
  shows "fold f xs (Inl e) = Inl e"
  by (induction xs) (simp_all add: assms)

lemma fold_Inr_invariant:
  assumes "fold f xs (Inr s) = Inr s'" and "P s"
    and "\<And>x e. f x (Inl e) = Inl e"
    and "\<And>x s t. x \<in> set xs \<Longrightarrow> P s \<Longrightarrow> f x (Inr s) = Inr t \<Longrightarrow> P t"
  shows "P s'"
  using assms(1,2,4)
proof (induction xs arbitrary: s)
  case Nil
  then show ?case by simp
next
  case (Cons x xs)
  show ?case
  proof (cases "f x (Inr s)")
    case (Inl e)
    with Cons.prems(1) show ?thesis by (simp add: fold_Inl assms(3))
  next
    case (Inr t)
    have pt: "P t" by (rule Cons.prems(3) [OF _ Cons.prems(2) Inr]) simp
    from Inr Cons.prems(1) have ft: "fold f xs (Inr t) = Inr s'" by simp
    show ?thesis
    proof (rule Cons.IH [OF ft pt])
      fix y u w
      assume "y \<in> set xs" "P u" "f y (Inr u) = Inr w"
      then show "P w" using Cons.prems(3) [of y u w] by simp
    qed
  qed
qed

section \<open>Seed list bookkeeping\<close>

lemma add_seed_Inr:
  assumes "iscc_fs_add_seed c alloc s sr = Inr sr'"
  shows "count_seeds sr \<noteq> c" "count_seeds sr' = count_seeds sr + 1"
    "seeds sr' = take (count_seeds sr) (seeds sr) @ [s]"
  using assms by (auto simp: iscc_fs_add_seed_def Let_def split: if_splits)

lemma add_seed_inv:
  "iscc_fs_add_seed c alloc s sr = Inr sr' \<Longrightarrow> seeds_inv c sr \<Longrightarrow> seeds_inv c sr'"
  using add_seed_Inr [of c alloc s sr sr'] by (auto simp: seeds_inv_def)

lemma lexical_step_Inl [simp]: "lexical_step c alloc nng v (Inl e) = Inl e"
  by (simp add: lexical_step_def)

lemma inwards_step_Inl [simp]: "inwards_step c alloc nng u p (Inl e) = Inl e"
  by (simp add: inwards_step_def)

lemma inwards_alt_step_Inl [simp]: "inwards_alt_step c alloc nng p (Inl e) = Inl e"
  by (simp add: inwards_alt_step_def)

lemma exclusion_step_Inl [simp]: "exclusion_step c alloc u p (Inl e) = Inl e"
  by (simp add: exclusion_step_def)

lemma lexical_step_seeds_inv:
  "lexical_step c alloc nng v (Inr (m, sr)) = Inr (m', sr') \<Longrightarrow> seeds_inv c sr \<Longrightarrow> seeds_inv c sr'"
  by (auto simp: lexical_step_def split: if_splits sum.splits dest: add_seed_inv)

lemma inwards_step_seeds_inv:
  "inwards_step c alloc nng u p (Inr (s, m, sr)) = Inr (s', m', sr') \<Longrightarrow> seeds_inv c sr
   \<Longrightarrow> seeds_inv c sr'"
  by (auto simp: inwards_step_def Let_def split: if_splits sum.splits dest: add_seed_inv)

lemma inwards_alt_step_seeds_inv:
  "inwards_alt_step c alloc nng p (Inr (s, m, sr)) = Inr (s', m', sr') \<Longrightarrow> seeds_inv c sr
   \<Longrightarrow> seeds_inv c sr'"
  by (auto simp: inwards_alt_step_def Let_def split: if_splits sum.splits dest: add_seed_inv)

lemma exclusion_step_seeds_inv:
  "exclusion_step c alloc u p (Inr (x, s, m, sr)) = Inr (x', s', m', sr') \<Longrightarrow> seeds_inv c sr
   \<Longrightarrow> seeds_inv c sr'"
  by (auto simp: exclusion_step_def Let_def split: if_splits sum.splits prod.splits
      dest: add_seed_inv)

lemma run_seed_method_seeds_inv:
  assumes "run_seed_method c alloc nng m out_seeds = Inr found"
    and "count_seeds out_seeds = 0"
  shows "seeds_inv c found"
proof -
  have start: "seeds_inv c (out_seeds\<lparr>seeds := []\<rparr>)"
    using assms(2) by (simp add: seeds_inv_def)
  have lex: "seeds_inv c found" if "iscc_findseeds_lexical c alloc nng out_seeds = Inr found"
  proof -
    from that obtain marks where
      "fold (lexical_step c alloc nng) [0..<vertices nng]
         (Inr (replicate (vertices nng) False, out_seeds\<lparr>seeds := []\<rparr>)) = Inr (marks, found)"
      by (auto simp: iscc_findseeds_lexical_def split: if_splits sum.splits)
    from fold_Inr_invariant [OF this, where P = "\<lambda>(m, sr). seeds_inv c sr"] start
    show ?thesis by (auto dest: lexical_step_seeds_inv)
  qed
  have inw: "seeds_inv c found" if "iscc_findseeds_inwards c alloc nng u out_seeds = Inr found" for u
  proof -
    from that obtain s0 st marks where
      "fold (inwards_step c alloc nng u) [0..<vertices nng]
         (Inr (s0, replicate (vertices nng) False, out_seeds\<lparr>seeds := []\<rparr>)) = Inr (st, marks, found)"
      by (auto simp: iscc_findseeds_inwards_def split: if_splits sum.splits)
    from fold_Inr_invariant [OF this, where P = "\<lambda>(s, m, sr). seeds_inv c sr"] start
    show ?thesis by (auto dest: inwards_step_seeds_inv)
  qed
  have alt: "seeds_inv c found" if "iscc_findseeds_inwards_alt c alloc nng out_seeds = Inr found"
  proof -
    from that obtain s0 st marks where
      "fold (inwards_alt_step c alloc nng) [0..<vertices nng]
         (Inr (s0, replicate (vertices nng) False, out_seeds\<lparr>seeds := []\<rparr>)) = Inr (st, marks, found)"
      by (auto simp: iscc_findseeds_inwards_alt_def split: if_splits sum.splits)
    from fold_Inr_invariant [OF this, where P = "\<lambda>(s, m, sr). seeds_inv c sr"] start
    show ?thesis by (auto dest: inwards_alt_step_seeds_inv)
  qed
  have exc: "seeds_inv c found" if "iscc_findseeds_exclusion c alloc nng u out_seeds = Inr found" for u
  proof -
    from that obtain x0 s0 ne0 x s ne where
      "fold (exclusion_step c alloc u) [0..<vertices nng]
         (Inr (x0, s0, ne0, out_seeds\<lparr>seeds := []\<rparr>)) = Inr (x, s, ne, found)"
      by (auto simp: iscc_findseeds_exclusion_def Let_def split: if_splits sum.splits prod.splits)
    from fold_Inr_invariant [OF this, where P = "\<lambda>(x, s, m, sr). seeds_inv c sr"] start
    show ?thesis by (auto dest: exclusion_step_seeds_inv)
  qed
  from assms(1) show ?thesis
    by (cases m) (auto simp: run_seed_method_def dest: lex inw alt exc)
qed

text \<open>
  C10: when the chosen method succeeds, \<^verbatim>\<open>iscc_find_seeds\<close> returns OK whether or not
  the shrinking \<^verbatim>\<open>realloc\<close> is granted. If it is refused the result is the method's
  result unchanged; if it is granted, and \<open>0 < count < capacity\<close>, only the capacity
  changes, to exactly \<open>count\<close>. The seed count and the \<open>count\<close> seeds are the same in
  both cases.
\<close>

theorem iscc_find_seeds_shrink_failure_absorbed:
  assumes "run_seed_method c alloc nng m out_seeds = Inr found"
    and "count_seeds out_seeds = 0"
  shows "iscc_find_seeds c alloc False nng m out_seeds = Inr found
       \<and> iscc_find_seeds c alloc True nng m out_seeds =
           Inr (found\<lparr>capacity :=
                        (if 0 < count_seeds found \<and> count_seeds found < capacity found
                         then count_seeds found else capacity found)\<rparr>)
       \<and> length (seeds found) = count_seeds found"
  using assms run_seed_method_seeds_inv [OF assms]
  by (simp add: iscc_find_seeds_def seeds_inv_def)

theorem iscc_find_seeds_shrink_failure_absorbed_witness:
  "iscc_find_seeds 100 (\<lambda>n. True) False two_triangles SCC_SM_LEXICAL
     \<lparr>capacity = 10, count_seeds = 0, seeds = []\<rparr>
     = Inr \<lparr>capacity = 10, count_seeds = 2, seeds = [0, 3]\<rparr>
   \<and> iscc_find_seeds 100 (\<lambda>n. True) True two_triangles SCC_SM_LEXICAL
       \<lparr>capacity = 10, count_seeds = 0, seeds = []\<rparr>
     = Inr \<lparr>capacity = 2, count_seeds = 2, seeds = [0, 3]\<rparr>"
proof -
  have run: "run_seed_method 100 (\<lambda>n. True) two_triangles SCC_SM_LEXICAL
               \<lparr>capacity = 10, count_seeds = 0, seeds = []\<rparr>
             = Inr \<lparr>capacity = 10, count_seeds = 2, seeds = [0, 3]\<rparr>"
    by code_simp
  from iscc_find_seeds_shrink_failure_absorbed [OF run] show ?thesis by simp
qed

lemma iscc_find_seeds_count_le:
  assumes "iscc_find_seeds c alloc shrink_ok nng m out_seeds = Inr found"
    and "count_seeds out_seeds = 0"
  shows "count_seeds found \<le> c"
proof -
  from assms(1) obtain found' where run: "run_seed_method c alloc nng m out_seeds = Inr found'"
    and "count_seeds found = count_seeds found'"
    by (auto simp: iscc_find_seeds_def split: sum.splits if_splits)
  with run_seed_method_seeds_inv [OF run assms(2)] show ?thesis by (simp add: seeds_inv_def)
qed


section \<open>Properties of the batch clusterer\<close>

lemma fill_batch_batch:
  "length (snd s) \<le> b \<Longrightarrow>
   snd (snd (fill_batch c p b n a curr_point s)) =
     snd s @ take (b - length (snd s)) (filter (batch_candidate p a) [curr_point..<n])"
proof (induction c p b n a curr_point s rule: fill_batch.induct)
  case (1 c p b n a curr_point labels batch)
  show ?case
  proof (cases "length batch < b \<and> curr_point < n")
    case False
    then have "fill_batch c p b n a curr_point (labels, batch) = (curr_point, labels, batch)"
      by (subst fill_batch.simps) auto
    moreover from False "1.prems" have "b - length batch = 0 \<or> [curr_point..<n] = []"
      by auto
    ultimately show ?thesis by auto
  next
    case True
    then have upt: "[curr_point..<n] = curr_point # [Suc curr_point..<n]"
      by (simp add: upt_conv_Cons)
    from True obtain d where d: "b - length batch = Suc d" "b - Suc (length batch) = d"
      by (cases "b - length batch") auto
    show ?thesis
    proof (cases "batch_candidate p a curr_point")
      case cand: True
      then have step: "fill_batch c p b n a curr_point (labels, batch) =
          fill_batch c p b n a (curr_point + 1) (labels[curr_point := c], batch @ [curr_point])"
        using True by (subst fill_batch.simps) (auto simp: batch_candidate_def split: option.splits)
      have "snd (snd (fill_batch c p b n a (curr_point + 1)
                 (labels[curr_point := c], batch @ [curr_point]))) =
            (batch @ [curr_point]) @ take (b - length (batch @ [curr_point]))
               (filter (batch_candidate p a) [curr_point + 1..<n])"
      proof (cases p)
        case None
        from cand have "\<not> a ! curr_point" by (simp add: batch_candidate_def)
        with True None "1.IH"(1) "1.prems" show ?thesis
          by simp
      next
        case (Some pm)
        with cand have "pm ! curr_point" "\<not> a ! curr_point"
          by (simp_all add: batch_candidate_def)
        with True Some "1.IH"(2) [of pm] "1.prems" show ?thesis
          by simp
      qed
      then show ?thesis using cand d by (simp add: step upt)
    next
      case ncand: False
      show ?thesis
      proof (cases "a ! curr_point")
        case True' : True
        then have step: "fill_batch c p b n a curr_point (labels, batch) =
            fill_batch c p b n a (curr_point + 1) (labels, batch)"
          using True by (subst fill_batch.simps) auto
        have "snd (snd (fill_batch c p b n a (curr_point + 1) (labels, batch))) =
              batch @ take (b - length batch) (filter (batch_candidate p a) [curr_point + 1..<n])"
          using True True' "1.IH"(4) "1.prems" by simp
        then show ?thesis using ncand by (simp add: step upt)
      next
        case False
        with ncand obtain pm where pm: "p = Some pm" "\<not> pm ! curr_point"
          by (auto simp: batch_candidate_def split: option.splits)
        then have step: "fill_batch c p b n a curr_point (labels, batch) =
            fill_batch c p b n a (curr_point + 1) (labels[curr_point := c], batch)"
          using True False by (subst fill_batch.simps) auto
        have "snd (snd (fill_batch c p b n a (curr_point + 1) (labels[curr_point := c], batch))) =
              batch @ take (b - length batch) (filter (batch_candidate p a) [curr_point + 1..<n])"
          using True False pm "1.IH"(3) "1.prems" by simp
        then show ?thesis using ncand by (simp add: step upt)
      qed
    qed
  qed
qed


lemma fold_assign_point:
  "fold (assign_point nx) xs (a, l) =
     (fold (\<lambda>x a. a[x := True]) xs a, fold (\<lambda>x l. l[x := nx]) xs l)"
  by (induction xs arbitrary: a l) (simp_all add: assign_point_def)

lemma length_fold_update [simp]: "length (fold (\<lambda>x a. a[x := y]) xs a) = length a"
  by (induction xs arbitrary: a) simp_all

lemma nth_fold_update:
  "i < length a \<Longrightarrow> fold (\<lambda>x a. a[x := y]) xs a ! i = (if i \<in> set xs then y else a ! i)"
  by (induction xs arbitrary: a) (auto simp: nth_list_update)

lemma process_row_next:
  assumes "process_row c k ign q row (a, l, nx) = Inr (a', l', nx')"
  shows "nx \<le> nx' \<and> nx' \<le> nx + 1 \<and> (nx \<le> c \<longrightarrow> nx' \<le> c) \<and> length a' = length a
         \<and> length l' = length l"
  using assms
  by (auto simp: process_row_def Let_def assign_point_def fold_assign_point
      split: if_splits list.splits)

lemma process_row_error:
  assumes "process_row c k ign q row s = Inl e"
  shows "e = iscc_make_error_msg SCC_ER_TOO_LARGE_PROBLEM
               ''Too many clusters (adjust the scc_Clabel type).''"
  using assms
  by (auto simp: process_row_def Let_def split: if_splits list.splits prod.splits)

lemma fold_Inr_error:
  assumes "fold f xs (Inr s) = Inl e"
    and "\<And>x e. f x (Inl e) = Inl e"
    and "\<And>x s e. x \<in> set xs \<Longrightarrow> f x (Inr s) = Inl e \<Longrightarrow> Q e"
  shows "Q e"
  using assms(1,3)
proof (induction xs arbitrary: s)
  case Nil
  then show ?case by simp
next
  case (Cons x xs)
  show ?case
  proof (cases "f x (Inr s)")
    case (Inl e')
    with Cons.prems(1) have "e' = e" by (simp add: fold_Inl assms(2))
    with Inl Cons.prems(2) [of x s e] show ?thesis by simp
  next
    case (Inr t)
    with Cons.prems(1) have ft: "fold f xs (Inr t) = Inl e" by simp
    show ?thesis
    proof (rule Cons.IH [OF ft])
      fix y u e'
      assume "y \<in> set xs" "f y (Inr u) = Inl e'"
      then show "Q e'" using Cons.prems(2) [of y u e'] by simp
    qed
  qed
qed

lemma process_rows_next:
  assumes "process_rows c k ign bi oi (a, l, nx) = Inr (a', l', nx')"
  shows "nx \<le> nx' \<and> (nx \<le> c \<longrightarrow> nx' \<le> c) \<and> length a' = length a \<and> length l' = length l"
proof -
  let ?P = "\<lambda>(a1, l1, n1). nx \<le> n1 \<and> (nx \<le> c \<longrightarrow> n1 \<le> c) \<and> length a1 = length a
                \<and> length l1 = length (l::nat list)"
  have "?P (a', l', nx')"
  proof (rule fold_Inr_invariant [OF assms [unfolded process_rows_def], where P = ?P])
    show "?P (a, l, nx)" by simp
  next
    fix x e
    show "(case Inl e of Inl ec \<Rightarrow> Inl ec
           | Inr s' \<Rightarrow> process_row c k ign (bi ! x) (take k (drop (x * k) oi)) s') = Inl e"
      by simp
  next
    fix x s t
    assume "?P s"
      and "(case Inr s of Inl ec \<Rightarrow> Inl ec
            | Inr s' \<Rightarrow> process_row c k ign (bi ! x) (take k (drop (x * k) oi)) s') = Inr t"
    then show "?P t"
      by (cases s, cases t) (auto dest!: process_row_next)
  qed
  then show ?thesis by simp
qed

lemma process_rows_error:
  assumes "process_rows c k ign bi oi s = Inl e"
  shows "e = iscc_make_error_msg SCC_ER_TOO_LARGE_PROBLEM
               ''Too many clusters (adjust the scc_Clabel type).''"
  by (rule fold_Inr_error [OF assms [unfolded process_rows_def]])
     (auto dest: process_row_error)

lemma run_batches_mono:
  "run_batches c search k ign p b n cp (a, l, nx, sd) = Inr (a', l', nx', sd') \<Longrightarrow>
   nx \<le> nx' \<and> (nx \<le> c \<longrightarrow> nx' \<le> c) \<and> (sd \<longrightarrow> sd') \<and> (\<not> sd' \<longrightarrow> nx' = nx)"
proof (induction c search k ign p b n cp "(a, l, nx, sd)" arbitrary: a l nx sd
       rule: run_batches.induct)
  case (1 c search k ign p b n cp a l nx sd)
  note run = "1.prems"
  show ?case
  proof (cases "cp < n")
    case False
    with run show ?thesis by (simp add: run_batches.simps)
  next
    case True
    obtain cp' l1 batch where fill: "fill_batch c p b n a cp (l, []) = (cp', l1, batch)"
      by (cases "fill_batch c p b n a cp (l, [])") auto
    show ?thesis
    proof (cases "batch = []")
      case True' : True
      with run True fill show ?thesis by (simp add: run_batches.simps)
    next
      case ne: False
      from run True fill ne obtain bi oi a1 l2 nx1 where
        srch: "search batch = Some (bi, oi)" and
        pr: "process_rows c k ign bi oi (a, l1, nx) = Inr (a1, l2, nx1)" and
        rec: "run_batches c search k ign p b n cp' (a1, l2, nx1, True) = Inr (a', l', nx', sd')"
        by (subst (asm) run_batches.simps)
           (auto split: option.splits sum.splits prod.splits)
      from "1.hyps" [OF True fill [symmetric] refl ne srch refl pr refl refl rec]
      have "nx1 \<le> nx' \<and> (nx1 \<le> c \<longrightarrow> nx' \<le> c) \<and> sd'" by simp
      with process_rows_next [OF pr] show ?thesis by auto
    qed
  qed
qed

lemma run_batches_error:
  "run_batches c search k ign p b n cp (a, l, nx, sd) = Inl e \<Longrightarrow>
   e = iscc_make_error SCC_ER_DIST_SEARCH_ERROR \<or> e = too_many_clusters"
proof (induction c search k ign p b n cp "(a, l, nx, sd)" arbitrary: a l nx sd
       rule: run_batches.induct)
  case (1 c search k ign p b n cp a l nx sd)
  note run = "1.prems"
  show ?case
  proof (cases "cp < n")
    case False
    with run show ?thesis by (simp add: run_batches.simps)
  next
    case True
    obtain cp' l1 batch where fill: "fill_batch c p b n a cp (l, []) = (cp', l1, batch)"
      by (cases "fill_batch c p b n a cp (l, [])") auto
    show ?thesis
    proof (cases "batch = []")
      case True' : True
      with run True fill show ?thesis by (simp add: run_batches.simps)
    next
      case ne: False
      show ?thesis
      proof (cases "search batch")
        case None
        with run True fill ne show ?thesis by (simp add: run_batches.simps)
      next
        case (Some r)
        obtain bi oi where r: "r = (bi, oi)" by (cases r)
        show ?thesis
        proof (cases "process_rows c k ign bi oi (a, l1, nx)")
          case (Inl e')
          with run True fill ne Some r have "e' = e" by (simp add: run_batches.simps)
          with process_rows_error [OF Inl] show ?thesis by (simp add: too_many_clusters_def)
        next
          case (Inr t)
          obtain a1 l2 nx1 where t: "t = (a1, l2, nx1)" by (cases t)
          from run True fill ne Some r Inr t
          have rec: "run_batches c search k ign p b n cp' (a1, l2, nx1, True) = Inl e"
            by (simp add: run_batches.simps)
          from "1.hyps" [OF True fill [symmetric] refl ne Some [unfolded r] refl
              Inr [unfolded t] refl refl rec]
          show ?thesis .
        qed
      qed
    qed
  qed
qed

lemma run_batches_search_done:
  assumes "run_batches c search k ign p b n cp (a, l, nx, False) = Inr (a', l', nx', sd')"
  shows "sd' = (0 < b \<and> filter (batch_candidate p a) [cp..<n] \<noteq> [])"
proof (cases "cp < n")
  case False
  with assms show ?thesis by (simp add: run_batches.simps)
next
  case True
  obtain cp' l1 batch where fill: "fill_batch c p b n a cp (l, []) = (cp', l1, batch)"
    by (cases "fill_batch c p b n a cp (l, [])") auto
  from fill_batch_batch [of "(l, [])" b c p n a cp] fill
  have batch: "batch = take b (filter (batch_candidate p a) [cp..<n])" by simp
  show ?thesis
  proof (cases "batch = []")
    case True' : True
    with assms True fill have "\<not> sd'" by (simp add: run_batches.simps)
    with True' batch show ?thesis by auto
  next
    case ne: False
    from assms True fill ne obtain a1 l2 nx1 where
      "run_batches c search k ign p b n cp' (a1, l2, nx1, True) = Inr (a', l', nx', sd')"
      by (subst (asm) run_batches.simps)
         (auto split: option.splits sum.splits prod.splits)
    from run_batches_mono [OF this] have sd' by simp
    with ne batch show ?thesis by auto
  qed
qed

text \<open>
  C3: \<^verbatim>\<open>iscc_run_nng_batches\<close> returns \<^verbatim>\<open>NO_SOLUTION\<close> exactly when the loop between
  batches completes with zero clusters formed, with the message "No primary data points."
  when no search was run and "Infeasible radius constraint." when searches ran; it returns
  OK exactly when the loop completes with at least one cluster, and then
  \<open>num_clusters\<close> is the number of labels used. No search is run exactly when no point is
  a candidate for a batch, and then no cluster is formed. (A run that the oracle or the
  label limit aborts returns that error from inside the loop.)
\<close>

theorem iscc_run_nng_batches_no_solution:
  "(iscc_run_nng_batches c search cl k ign p b assigned
      = Inl (Failed SCC_ER_NO_SOLUTION msg)) =
   (\<exists>a l sd. run_batches c search k ign p b (num_data_points cl) 0
                (assigned, cluster_label cl, 0, False) = Inr (a, l, 0, sd)
             \<and> msg = Some (if sd then ''Infeasible radius constraint.''
                           else ''No primary data points.''))
   \<and> (iscc_run_nng_batches c search cl k ign p b assigned = Inr cl') =
   (\<exists>a l nx sd. run_batches c search k ign p b (num_data_points cl) 0
                   (assigned, cluster_label cl, 0, False) = Inr (a, l, nx, sd)
             \<and> 0 < nx \<and> cl' = cl\<lparr>cluster_label := l, num_clusters := nx\<rparr>)
   \<and> (\<forall>a l nx sd. run_batches c search k ign p b (num_data_points cl) 0
                   (assigned, cluster_label cl, 0, False) = Inr (a, l, nx, sd) \<longrightarrow>
          sd = (0 < b \<and> filter (batch_candidate p assigned) [0..<num_data_points cl] \<noteq> [])
          \<and> (\<not> sd \<longrightarrow> nx = 0))"
proof (intro conjI allI impI)
  show "(iscc_run_nng_batches c search cl k ign p b assigned
      = Inl (Failed SCC_ER_NO_SOLUTION msg)) =
   (\<exists>a l sd. run_batches c search k ign p b (num_data_points cl) 0
                (assigned, cluster_label cl, 0, False) = Inr (a, l, 0, sd)
             \<and> msg = Some (if sd then ''Infeasible radius constraint.''
                           else ''No primary data points.''))"
  proof (cases "run_batches c search k ign p b (num_data_points cl) 0
                (assigned, cluster_label cl, 0, False)")
    case (Inl e)
    from run_batches_error [OF Inl] Inl show ?thesis
      by (auto simp: iscc_run_nng_batches_def iscc_make_error_def too_many_clusters_def
          iscc_make_error_msg_def)
  next
    case (Inr t)
    then show ?thesis
      by (cases t) (auto simp: iscc_run_nng_batches_def iscc_make_error_msg_def)
  qed
next
  show "(iscc_run_nng_batches c search cl k ign p b assigned = Inr cl') =
   (\<exists>a l nx sd. run_batches c search k ign p b (num_data_points cl) 0
                   (assigned, cluster_label cl, 0, False) = Inr (a, l, nx, sd)
             \<and> 0 < nx \<and> cl' = cl\<lparr>cluster_label := l, num_clusters := nx\<rparr>)"
    by (cases "run_batches c search k ign p b (num_data_points cl) 0
                (assigned, cluster_label cl, 0, False)")
       (auto simp: iscc_run_nng_batches_def split: prod.splits)
next
  fix a l nx sd
  assume run: "run_batches c search k ign p b (num_data_points cl) 0
                   (assigned, cluster_label cl, 0, False) = Inr (a, l, nx, sd)"
  from run_batches_search_done [OF run]
  show "sd = (0 < b \<and> filter (batch_candidate p assigned) [0..<num_data_points cl] \<noteq> [])" .
  assume "\<not> sd"
  with run_batches_mono [OF run] show "nx = 0" by simp
qed

lemma iscc_run_nng_batches_num_clusters_le:
  assumes "iscc_run_nng_batches c search cl k ign p b assigned = Inr cl'"
  shows "num_clusters cl' \<le> c"
proof -
  from assms obtain a l nx sd where
    run: "run_batches c search k ign p b (num_data_points cl) 0
            (assigned, cluster_label cl, 0, False) = Inr (a, l, nx, sd)"
    and cl': "cl' = cl\<lparr>cluster_label := l, num_clusters := nx\<rparr>"
    by (auto simp: iscc_run_nng_batches_def split: sum.splits prod.splits if_splits)
  from run_batches_mono [OF run] cl' show ?thesis by simp
qed

theorem iscc_run_nng_batches_no_solution_witness:
  "run_batches 100 line_search 3 True (Some (replicate 10 False)) 10 10 0
     (replicate 10 False, replicate 10 0, 0, False)
     = Inr (replicate 10 False, replicate 10 100, 0, False)
   \<and> iscc_run_nng_batches 100 line_search line_clustering 3 True (Some (replicate 10 False)) 10
       (replicate 10 False)
     = Inl (Failed SCC_ER_NO_SOLUTION (Some ''No primary data points.''))
   \<and> filter (batch_candidate (Some (replicate 10 False)) (replicate 10 False)) [0..<10] = []"
proof -
  have run: "run_batches 100 line_search 3 True (Some (replicate 10 False)) 10 10 0
     (replicate 10 False, replicate 10 0, 0, False)
     = Inr (replicate 10 False, replicate 10 100, 0, False)"
    by code_simp
  from iscc_run_nng_batches_no_solution
    [of 100 line_search line_clustering 3 True "Some (replicate 10 False)" 10
        "replicate 10 False" "Some ''No primary data points.''" line_clustering] run
  show ?thesis by (auto simp: line_clustering_def)
qed

lemma card_seed_members:
  assumes "distinct row" "row \<noteq> []"
  shows "card (seed_members q row) = length row"
proof (cases "q \<in> set row")
  case True
  with assms show ?thesis by (simp add: seed_members_def distinct_card)
next
  case False
  then have "q \<notin> set (butlast row)" by (auto dest: in_set_butlastD)
  moreover from assms have "card (set (butlast row)) = length row - 1"
    by (simp add: distinct_card distinct_butlast)
  ultimately show ?thesis using False assms by (simp add: seed_members_def)
qed

lemma set_butlast_last: "row \<noteq> [] \<Longrightarrow> set row = insert (last row) (set (butlast row))"
  by (induction row) auto

lemma seed_members_alt:
  assumes "row \<noteq> []"
  shows "seed_members q row =
           insert (if q \<in> set (butlast row) then last row else q) (set (butlast row))"
  using set_butlast_last [OF assms] by (auto simp: seed_members_def)

lemma process_row_all_unassigned:
  assumes "\<not> assigned ! q" "length row = k" "0 < k" "\<forall>x\<in>set row. \<not> assigned ! x" "nx \<noteq> c"
    and "q < length assigned"
  shows "process_row c k ign q row (assigned, labels, nx) =
           Inr ((fold (\<lambda>x a. a[x := True]) (butlast row) assigned)
                  [(if q \<in> set (butlast row) then last row else q) := True],
                (fold (\<lambda>x l. l[x := nx]) (butlast row) labels)
                  [(if q \<in> set (butlast row) then last row else q) := nx],
                nx + 1)"
proof -
  from assms have ne: "row \<noteq> []" by auto
  have bl: "take (k - 1) row = butlast row" using assms(2) by (simp add: butlast_conv_take)
  have lst: "row ! (k - 1) = last row" using assms(2) ne by (simp add: last_conv_nth)
  from assms(4) have dw: "dropWhile (\<lambda>x. \<not> assigned ! x) row = []" by simp
  show ?thesis
    using assms(1,5,6)
    by (simp add: process_row_def dw Let_def bl lst fold_assign_point assign_point_def
        nth_fold_update del: One_nat_def)
qed

lemma nth_update_fold:
  "y < length a \<Longrightarrow> x < length a \<Longrightarrow>
   (fold (\<lambda>x a. a[x := v]) xs a)[y := v] ! x = (if x = y \<or> x \<in> set xs then v else a ! x)"
  by (auto simp: nth_list_update nth_fold_update)

text \<open>
  C2, as the claim states it, fails: with \<open>k = 2\<close>, the query \<open>0\<close> and the returned
  neighbours \<open>1\<close> and \<open>2\<close> (no self-loop, nothing assigned), the query becomes a seed, but
  only the first neighbour and the query receive the label; the second neighbour stays
  unassigned and the cluster has \<open>k = 2\<close> members, not \<open>k + 1\<close>.
\<close>

theorem process_row_no_self_loop_counterexample:
  "process_row 100 2 True 0 [1, 2] ([False, False, False], [100, 100, 100], 0)
     = Inr ([True, True, False], [0, 0, 100], 1)
   \<and> 0 \<notin> set [1, 2::nat] \<and> seed_members 0 [1, 2] = {0, 1}"
  by (simp add: process_row_def assign_point_def seed_members_def Let_def insert_commute)

text \<open>
  C2, amended: for a row of \<open>k\<close> distinct neighbours whose query is unassigned, the query
  becomes a seed (the label counter advances) if and only if all \<open>k\<close> neighbours are
  unassigned and the label limit is not reached. On success exactly the points of
  \<open>seed_members\<close> are newly assigned and receive the next label: all \<open>k\<close> neighbours when
  the query is among them, and otherwise the query with the first \<open>k - 1\<close> neighbours;
  the cluster has exactly \<open>k\<close> members in both cases.
\<close>

theorem process_row_seed:
  assumes na: "\<not> assigned ! q" and len: "length row = k" and k: "0 < k"
    and dist: "distinct row" and row: "\<forall>x\<in>set row. x < length assigned"
    and q: "q < length assigned" and ll: "length labels = length assigned"
  shows "((\<exists>a' l'. process_row c k ign q row (assigned, labels, nx) = Inr (a', l', nx + 1))
           = ((\<forall>x\<in>set row. \<not> assigned ! x) \<and> nx \<noteq> c))
       \<and> ((\<forall>x\<in>set row. \<not> assigned ! x) \<and> nx \<noteq> c \<longrightarrow>
            (\<exists>a' l'. process_row c k ign q row (assigned, labels, nx) = Inr (a', l', nx + 1)
               \<and> length a' = length assigned \<and> length l' = length labels
               \<and> (\<forall>x<length assigned. a' ! x = (assigned ! x \<or> x \<in> seed_members q row))
               \<and> (\<forall>x<length assigned.
                      l' ! x = (if x \<in> seed_members q row then nx else labels ! x))
               \<and> card (seed_members q row) = k))"
proof -
  from len k have ne: "row \<noteq> []" by auto
  have seed: "\<exists>a' l'. process_row c k ign q row (assigned, labels, nx) = Inr (a', l', nx + 1)
               \<and> length a' = length assigned \<and> length l' = length labels
               \<and> (\<forall>x<length assigned. a' ! x = (assigned ! x \<or> x \<in> seed_members q row))
               \<and> (\<forall>x<length assigned.
                      l' ! x = (if x \<in> seed_members q row then nx else labels ! x))
               \<and> card (seed_members q row) = k"
    if all: "\<forall>x\<in>set row. \<not> assigned ! x" and cap: "nx \<noteq> c"
  proof -
    note res = process_row_all_unassigned [OF na len k all cap q, of ign labels]
    define y where "y = (if q \<in> set (butlast row) then last row else q)"
    have y: "y < length assigned" using row q ne by (simp add: y_def)
    have mem: "seed_members q row = insert y (set (butlast row))"
      by (simp add: seed_members_alt [OF ne] y_def)
    have card: "card (insert y (set (butlast row))) = k"
      using card_seed_members [OF dist ne, of q] len by (simp add: mem)
    show ?thesis
      unfolding res mem y_def [symmetric]
      using y ll card by (auto simp: nth_update_fold all)
  qed
  have noseed: "\<not> (\<exists>a' l'. process_row c k ign q row (assigned, labels, nx) = Inr (a', l', nx + 1))"
    if "\<not> ((\<forall>x\<in>set row. \<not> assigned ! x) \<and> nx \<noteq> c)"
  proof (cases "\<forall>x\<in>set row. \<not> assigned ! x")
    case True
    with that have c: "nx = c" by simp
    from True have dw: "dropWhile (\<lambda>x. \<not> assigned ! x) row = []" by simp
    show ?thesis using na c
      by (simp add: process_row_def dw)
  next
    case False
    then have "dropWhile (\<lambda>x. \<not> assigned ! x) row \<noteq> []" by (simp add: dropWhile_eq_Nil_conv)
    then obtain x rest where "dropWhile (\<lambda>x. \<not> assigned ! x) row = x # rest"
      by (cases "dropWhile (\<lambda>x. \<not> assigned ! x) row") auto
    with na show ?thesis by (simp add: process_row_def)
  qed
  from seed noseed show ?thesis by blast
qed

theorem process_row_seed_witness:
  "(\<exists>a' l'. process_row 100 2 True 0 [1, 2] ([False, False, False], [100, 100, 100], 0)
              = Inr (a', l', 1))
   \<and> card (seed_members 0 [1, 2]) = 2"
  using process_row_seed
    [of "[False, False, False]" 0 "[1, 2]" 2 "[100, 100, 100]" 100 True 0]
  by (auto simp: nth_Cons')



section \<open>Properties of the digraph algebra\<close>



lemma length_first_occ: "length (first_occ seen xs) \<le> length xs"
  by (induction seen xs rule: first_occ.induct) auto

lemma first_occ_cong:
  "(\<And>x. x \<in> set xs \<Longrightarrow> (x \<in> S) = (x \<in> T)) \<Longrightarrow> first_occ S xs = first_occ T xs"
proof (induction S xs arbitrary: T rule: first_occ.induct)
  case (1 seen)
  show ?case by simp
next
  case (2 seen x xs)
  show ?case
  proof (cases "x \<in> seen")
    case True
    with "2.prems" have "x \<in> T" by simp
    moreover have "first_occ seen xs = first_occ T xs"
      using True "2.prems" by (intro "2.IH"(1)) auto
    ultimately show ?thesis using True by simp
  next
    case False
    with "2.prems" have "x \<notin> T" by simp
    moreover have "first_occ (insert x seen) xs = first_occ (insert x T) xs"
      using False "2.prems" by (intro "2.IH"(2)) auto
    ultimately show ?thesis using False by simp
  qed
qed


lemma nth_fold_mark:
  "i < length m \<Longrightarrow> fold (\<lambda>x m. m[x := v]) xs m ! i = (if i \<in> set xs then v else m ! i)"
  by (induction xs arbitrary: m) (auto simp: nth_list_update)

lemma length_fold_mark [simp]: "length (fold (\<lambda>x m. m[x := v]) xs m) = length m"
  by (induction xs arbitrary: m) simp_all


lemma markers_ok_step:
  assumes "markers_ok n v m" "v < n"
  shows "markers_ok n (Suc v) (fold (\<lambda>x m. m[x := v]) xs (m[v := v]))"
  using assms
  by (auto simp: markers_ok_def nth_fold_mark nth_list_update less_Suc_eq)


lemma write_rows_alt:
  "write_rows n do_row = fold (write_row_step do_row) [0..<n] ([0], [], replicate n SCC_DPID_NA)"
  by (simp add: write_rows_def)

lemma write_rows_prefix:
  assumes step: "\<And>v oh m. v < n \<Longrightarrow> markers_ok n v m \<Longrightarrow>
                   \<exists>m'. do_row v (oh, m) = (oh @ ROW v, m') \<and> markers_ok n (Suc v) m'"
    and "k \<le> n"
  shows "\<exists>m'. fold (write_row_step do_row) [0..<k] ([0], [], replicate n SCC_DPID_NA)
        = (map (\<lambda>v. to_Arci (length (concat (map ROW [0..<v])))) [0..<Suc k],
           concat (map ROW [0..<k]), m') \<and> markers_ok n k m'"
  using assms(2)
proof (induction k)
  case 0
  show ?case by (simp add: to_Arci_def markers_ok_def)
next
  case (Suc k)
  then obtain m' where
    IH: "fold (write_row_step do_row) [0..<k] ([0], [], replicate n SCC_DPID_NA)
        = (map (\<lambda>v. to_Arci (length (concat (map ROW [0..<v])))) [0..<Suc k],
           concat (map ROW [0..<k]), m')" and ok: "markers_ok n k m'"
    by auto
  from Suc.prems have "k < n" by simp
  from step [OF this ok, of "concat (map ROW [0..<k])"] obtain m'' where
    row: "do_row k (concat (map ROW [0..<k]), m') = (concat (map ROW [0..<k]) @ ROW k, m'')"
    and ok': "markers_ok n (Suc k) m''" by auto
  have "fold (write_row_step do_row) [0..<Suc k] ([0], [], replicate n SCC_DPID_NA)
        = write_row_step do_row k
            (map (\<lambda>v. to_Arci (length (concat (map ROW [0..<v])))) [0..<Suc k],
             concat (map ROW [0..<k]), m')"
    by (simp add: IH)
  also have "\<dots> = (map (\<lambda>v. to_Arci (length (concat (map ROW [0..<v])))) [0..<Suc (Suc k)],
                   concat (map ROW [0..<Suc k]), m'')"
    by (simp add: write_row_step_def row)
  finally show ?case using ok' by blast
qed

lemma write_rows_eq:
  assumes "\<And>v oh m. v < n \<Longrightarrow> markers_ok n v m \<Longrightarrow>
             \<exists>m'. do_row v (oh, m) = (oh @ ROW v, m') \<and> markers_ok n (Suc v) m'"
  shows "\<exists>m'. write_rows n do_row =
           (map (\<lambda>v. to_Arci (length (concat (map ROW [0..<v])))) [0..<Suc n],
            concat (map ROW [0..<n]), m')"
  using write_rows_prefix [OF assms, where k = n] by (auto simp: write_rows_alt)

lemma length_concat_take_mono:
  "i \<le> j \<Longrightarrow> length (concat (take i rows)) \<le> length (concat (take j rows))"
proof -
  assume "i \<le> j"
  then have "take j rows = take i rows @ drop i (take j rows)"
    by (metis append_take_drop_id min.absorb1 take_take)
  then have "concat (take j rows) = concat (take i rows) @ concat (drop i (take j rows))"
    by (metis concat_append)
  then show ?thesis by simp
qed

lemma csr_of_simps [simp]:
  "vertices (csr_of rows) = length rows"
  "max_arcs (csr_of rows) = length (concat rows)"
  "head (csr_of rows) = concat rows"
  "length (tail_ptr (csr_of rows)) = length rows + 1"
  by (simp_all add: csr_of_def)

lemma tail_ptr_csr_of:
  "v \<le> length rows \<Longrightarrow> tail_ptr (csr_of rows) ! v = length (concat (take v rows))"
  unfolding csr_of_def by (simp add: nth_append del: upt_Suc)

lemma out_row_csr_of:
  assumes "v < length rows"
  shows "out_row (csr_of rows) v = rows ! v"
proof -
  have split: "concat rows = concat (take v rows) @ rows ! v @ concat (drop (Suc v) rows)"
    using assms by (metis append_take_drop_id concat.simps(2) concat_append Cons_nth_drop_Suc)
  have suc: "length (concat (take (Suc v) rows)) = length (concat (take v rows)) + length (rows ! v)"
    using assms by (simp add: take_Suc_conv_app_nth)
  show ?thesis
    using assms
    by (simp add: out_row_def tail_ptr_csr_of suc)
       (subst split, simp)
qed

lemma sorted_tail_ptr_csr_of: "sorted (tail_ptr (csr_of rows))"
  unfolding sorted_iff_nth_mono
  by (auto simp: tail_ptr_csr_of length_concat_take_mono)

lemma all_arcs_csr_of: "all_arcs (csr_of rows) = concat rows"
  by (simp add: all_arcs_def tail_ptr_csr_of)

lemma csr_of_valid:
  assumes "\<forall>row\<in>set rows. \<forall>a\<in>set row. a < length rows"
    and "length rows < SCC_DPID_MAX" and "length (concat rows) \<le> SCC_ARCI_MAX"
  shows "iscc_digraph_is_valid (csr_of rows)"
  using assms
  by (auto simp: iscc_digraph_is_valid_def iscc_digraph_is_initialized_def
      sorted_tail_ptr_csr_of all_arcs_csr_of tail_ptr_csr_of list_all_iff)

text \<open>Rows of a valid digraph.\<close>

lemma out_row_subset_all_arcs:
  assumes "sorted (tail_ptr dg)" "length (tail_ptr dg) = vertices dg + 1" "v < vertices dg"
  shows "set (out_row dg v) \<subseteq> set (all_arcs dg)"
proof -
  let ?t = "tail_ptr dg"
  from assms have le1: "?t ! v \<le> ?t ! Suc v" and le2: "?t ! Suc v \<le> ?t ! vertices dg"
    by (auto simp: sorted_iff_nth_mono)
  have "out_row dg v = drop (?t ! v) (take (?t ! Suc v) (head dg))"
    by (simp add: out_row_def drop_take)
  then have "set (out_row dg v) \<subseteq> set (take (?t ! Suc v) (head dg))"
    by (simp add: set_drop_subset)
  also have "\<dots> \<subseteq> set (take (?t ! vertices dg) (head dg))"
    using le2 by (rule set_take_subset_set_take)
  finally show ?thesis by (simp add: all_arcs_def)
qed

lemma out_row_valid:
  assumes "iscc_digraph_is_valid dg" "v < vertices dg" "a \<in> set (out_row dg v)"
  shows "a < vertices dg"
proof -
  from assms(1) have "sorted (tail_ptr dg)" "length (tail_ptr dg) = vertices dg + 1"
    and arcs: "\<forall>a\<in>set (all_arcs dg). a < vertices dg"
    by (auto simp: iscc_digraph_is_valid_def iscc_digraph_is_initialized_def list_all_iff)
  from out_row_subset_all_arcs [OF this(1,2) assms(2)] assms(3) arcs show ?thesis by auto
qed

lemma out_row_empty_iff:
  assumes "iscc_digraph_is_valid dg" "v < vertices dg"
  shows "(out_row dg v = []) = (tail_ptr dg ! v = tail_ptr dg ! Suc v)"
proof -
  let ?t = "tail_ptr dg"
  from assms have le1: "?t ! v \<le> ?t ! Suc v" and le2: "?t ! Suc v \<le> ?t ! vertices dg"
    by (auto simp: sorted_iff_nth_mono iscc_digraph_is_valid_def
        iscc_digraph_is_initialized_def)
  moreover from assms(1) have "?t ! vertices dg \<le> length (head dg)"
    by (simp add: iscc_digraph_is_valid_def iscc_digraph_is_initialized_def)
  ultimately show ?thesis by (auto simp: out_row_def)
qed

lemma length_out_row:
  assumes "iscc_digraph_is_valid dg" "v < vertices dg"
  shows "length (out_row dg v) = tail_ptr dg ! Suc v - tail_ptr dg ! v"
proof -
  let ?t = "tail_ptr dg"
  from assms have le1: "?t ! v \<le> ?t ! Suc v" and le2: "?t ! Suc v \<le> ?t ! vertices dg"
    by (auto simp: sorted_iff_nth_mono iscc_digraph_is_valid_def
        iscc_digraph_is_initialized_def)
  moreover from assms(1) have "?t ! vertices dg \<le> length (head dg)"
    by (simp add: iscc_digraph_is_valid_def iscc_digraph_is_initialized_def)
  ultimately show ?thesis by (auto simp: out_row_def)
qed

text \<open>The allocation protocol.\<close>

lemma store_result_Inr:
  assumes "store_result alloc n greedy do_op = Inr out"
    and "do_op True = (length oh, Some (tp, oh))"
  shows "out = \<lparr>vertices = n, max_arcs = length oh, head = oh, tail_ptr = tp\<rparr>
         \<and> length oh \<le> SCC_ARCI_MAX"
proof -
  from assms obtain dg where
    init: "iscc_init_digraph alloc n greedy = Inr dg
           \<or> iscc_init_digraph alloc n (fst (do_op False)) = Inr dg"
    and cap: "\<not> max_arcs dg < length oh"
    and chg: "iscc_change_arc_storage alloc
                (dg\<lparr>tail_ptr := tp, head := oh @ drop (length oh) (head dg)\<rparr>) (length oh)
              = Inr out"
    by (auto simp: store_result_def split: if_splits sum.splits)
  from init obtain c where dg: "dg = \<lparr>vertices = n, max_arcs = c, head = replicate c 0,
                                      tail_ptr = replicate (n + 1) 0\<rparr>" and c: "c \<le> SCC_ARCI_MAX"
    by (auto simp: iscc_init_digraph_def split: if_splits)
  from chg cap dg c show ?thesis
    by (auto simp: iscc_change_arc_storage_def split: if_splits)
qed

lemma store_rows:
  assumes res: "store_result alloc n greedy do_op = Inr out"
    and op: "\<And>w. do_op w = do_result w (write_rows n do_row)"
    and step: "\<And>v oh m. v < n \<Longrightarrow> markers_ok n v m \<Longrightarrow>
             \<exists>m'. do_row v (oh, m) = (oh @ ROW v, m') \<and> markers_ok n (Suc v) m'"
  shows "out = csr_of (map ROW [0..<n])"
    and "length (concat (map ROW [0..<n])) \<le> SCC_ARCI_MAX"
proof -
  from write_rows_eq [OF step] obtain m' where
    wr: "write_rows n do_row =
           (map (\<lambda>v. to_Arci (length (concat (map ROW [0..<v])))) [0..<Suc n],
            concat (map ROW [0..<n]), m')"
    by blast
  have "do_op True = (length (concat (map ROW [0..<n])),
          Some (map (\<lambda>v. to_Arci (length (concat (map ROW [0..<v])))) [0..<Suc n],
                concat (map ROW [0..<n])))"
    by (simp add: op wr do_result_def)
  from store_result_Inr [OF res this]
  have out: "out = \<lparr>vertices = n, max_arcs = length (concat (map ROW [0..<n])),
                    head = concat (map ROW [0..<n]),
                    tail_ptr = map (\<lambda>v. to_Arci (length (concat (map ROW [0..<v])))) [0..<Suc n]\<rparr>"
    and bound: "length (concat (map ROW [0..<n])) \<le> SCC_ARCI_MAX"
    by simp_all
  show "length (concat (map ROW [0..<n])) \<le> SCC_ARCI_MAX" by (rule bound)
  have "to_Arci (length (concat (map ROW [0..<v]))) = length (concat (take v (map ROW [0..<n])))"
    if "v \<in> set [0..<Suc n]" for v
  proof -
    from that have v: "v \<le> n" by auto
    then have tk: "take v (map ROW [0..<n]) = map ROW [0..<v]"
      by (simp add: take_map take_upt)
    have "length (concat (take v (map ROW [0..<n]))) \<le> length (concat (take n (map ROW [0..<n])))"
      using v by (rule length_concat_take_mono)
    with bound have "length (concat (map ROW [0..<v])) < 4294967296"
      by (simp add: tk SCC_ARCI_MAX_def)
    then show ?thesis by (simp add: to_Arci_def tk)
  qed
  then have "map (\<lambda>v. to_Arci (length (concat (map ROW [0..<v])))) [0..<Suc n]
             = map (\<lambda>v. length (concat (take v (map ROW [0..<n])))) [0..<Suc n]"
    by (intro map_cong refl)
  with out show "out = csr_of (map ROW [0..<n])" by (simp add: csr_of_def)
qed

lemma fold_fold_concat: "fold (\<lambda>x. fold f (g x)) xs s = fold f (concat (map g xs)) s"
  by (induction xs arbitrary: s) simp_all


lemma valid_n_le_NA: "iscc_digraph_is_valid dg \<Longrightarrow> vertices dg \<le> SCC_DPID_NA"
  by (simp add: iscc_digraph_is_valid_def iscc_digraph_is_initialized_def SCC_DPID_MAX_def
      SCC_DPID_NA_def)




lemma difference_emit_eq:
  "difference_emit v m d rc xs = take (d - rc) (filter (\<lambda>a. m ! a \<noteq> v) xs)"
proof (induction xs arbitrary: rc)
  case Nil
  show ?case by simp
next
  case (Cons x xs)
  show ?case
  proof (cases "rc < d")
    case True
    then have "d - rc = Suc (d - Suc rc)" by simp
    with True Cons show ?thesis by simp
  next
    case False
    then show ?thesis by simp
  qed
qed

lemma difference_row_step:
  assumes "v < n" "markers_ok n v m" "n \<le> SCC_DPID_NA"
    and "iscc_digraph_is_valid dg_a" "vertices dg_a = n"
    and "iscc_digraph_is_valid dg_b" "vertices dg_b = n"
  shows "\<exists>m'. difference_row dg_a dg_b d v (oh, m) = (oh @ difference_rows_of dg_a dg_b d v, m')
              \<and> markers_ok n (Suc v) m'"
proof -
  let ?m' = "fold (\<lambda>x m. m[x := v]) (out_row dg_b v) (m[v := v])"
  from assms(2) have len: "length m = n" by (simp add: markers_ok_def)
  have fresh: "(m[v := v]) ! a \<noteq> v" if "a < n" "a \<noteq> v" for a
    using that assms(1,2,3) by (auto simp: markers_ok_def)
  have "filter (\<lambda>a. ?m' ! a \<noteq> v) (out_row dg_a v)
        = filter (\<lambda>a. a \<noteq> v \<and> a \<notin> set (out_row dg_b v)) (out_row dg_a v)"
  proof (rule filter_cong [OF refl])
    fix a assume "a \<in> set (out_row dg_a v)"
    with assms(1,4,5) have a: "a < n" by (auto dest: out_row_valid)
    show "(?m' ! a \<noteq> v) = (a \<noteq> v \<and> a \<notin> set (out_row dg_b v))"
    proof (cases "a = v")
      case True
      with a len show ?thesis by (simp add: nth_fold_mark)
    next
      case False
      with fresh [OF a] a len show ?thesis by (simp add: nth_fold_mark)
    qed
  qed
  then have "difference_row dg_a dg_b d v (oh, m) = (oh @ difference_rows_of dg_a dg_b d v, ?m')"
    by (simp add: difference_row_def Let_def difference_emit_eq difference_rows_of_def)
  with markers_ok_step [OF assms(2,1)] show ?thesis by blast
qed



lemma iscc_digraph_difference_rows:
  assumes res: "iscc_digraph_difference alloc dg_a dg_b d = Inr out"
    and "iscc_digraph_is_valid dg_a" "vertices dg_a = n"
    and "iscc_digraph_is_valid dg_b" "vertices dg_b = n"
  shows "out = csr_of (map (difference_rows_of dg_a dg_b d) [0..<n])"
proof -
  from assms have na: "n \<le> SCC_DPID_NA" by (auto dest: valid_n_le_NA)
  from res assms(3) have "store_result alloc n (tail_ptr dg_a ! n)
                   (iscc_do_difference n dg_a dg_b d) = Inr out"
    by (simp add: iscc_digraph_difference_def Let_def)
  then show ?thesis
    by (rule store_rows(1))
       (auto simp: iscc_do_difference_def intro: difference_row_step na assms)
qed








lemma length_concat_rows:
  assumes "iscc_digraph_is_valid dg" "k \<le> vertices dg"
  shows "length (concat (map (out_row dg) [0..<k])) = tail_ptr dg ! k - tail_ptr dg ! 0"
  using assms(2)
proof (induction k)
  case 0
  show ?case by simp
next
  case (Suc k)
  let ?t = "tail_ptr dg"
  from assms(1) Suc.prems have "?t ! 0 \<le> ?t ! k" "?t ! k \<le> ?t ! Suc k"
    by (auto simp: sorted_iff_nth_mono iscc_digraph_is_valid_def
        iscc_digraph_is_initialized_def)
  with Suc length_out_row [OF assms(1), of k] show ?case by simp
qed

lemma length_concat_map_le:
  assumes "\<And>x. x \<in> set xs \<Longrightarrow> length (f x) \<le> length (g x)"
  shows "length (concat (map f xs)) \<le> length (concat (map g xs))"
  using assms by (induction xs) (simp_all add: add_mono)

lemma store_result_total:
  assumes "\<forall>k. alloc k" "greedy \<le> SCC_ARCI_MAX"
    and "do_op True = (length oh, Some (tp, oh))" "length oh \<le> greedy"
  shows "\<exists>out. store_result alloc n greedy do_op = Inr out"
  using assms
  by (simp add: store_result_def iscc_init_digraph_def iscc_change_arc_storage_def)

lemma difference_total:
  assumes "\<forall>k. alloc k"
    and "iscc_digraph_is_valid dg_a" "vertices dg_a = n"
    and "iscc_digraph_is_valid dg_b" "vertices dg_b = n"
  shows "\<exists>out. iscc_digraph_difference alloc dg_a dg_b d = Inr out"
proof -
  let ?ROW = "difference_rows_of dg_a dg_b d"
  from assms have na: "n \<le> SCC_DPID_NA" by (auto dest: valid_n_le_NA)
  have step: "\<exists>m'. difference_row dg_a dg_b d v (oh, m) = (oh @ ?ROW v, m')
                \<and> markers_ok n (Suc v) m'"
    if "v < n" "markers_ok n v m" for v oh m
    using that na assms(2-5) by (rule difference_row_step)
  from write_rows_eq [of n "difference_row dg_a dg_b d" ?ROW, OF step]
  obtain m' where
    wr: "write_rows n (difference_row dg_a dg_b d) =
           (map (\<lambda>v. to_Arci (length (concat (map ?ROW [0..<v])))) [0..<Suc n],
            concat (map ?ROW [0..<n]), m')"
    by blast
  have "length (concat (map ?ROW [0..<n])) \<le> length (concat (map (out_row dg_a) [0..<n]))"
    by (rule length_concat_map_le) (simp add: difference_rows_of_def min.coboundedI1)
  also have "\<dots> \<le> tail_ptr dg_a ! n"
    using length_concat_rows [OF assms(2), of n] assms(3) by simp
  finally have le: "length (concat (map ?ROW [0..<n])) \<le> tail_ptr dg_a ! n" .
  from assms(2,3) have cap: "tail_ptr dg_a ! n \<le> SCC_ARCI_MAX"
    by (simp add: iscc_digraph_is_valid_def iscc_digraph_is_initialized_def)
  have "\<exists>out. store_result alloc n (tail_ptr dg_a ! n) (iscc_do_difference n dg_a dg_b d) = Inr out"
    by (rule store_result_total [OF assms(1) cap _ le])
       (simp add: iscc_do_difference_def wr do_result_def)
  then show ?thesis using assms(3) by (simp add: iscc_digraph_difference_def Let_def)
qed

text \<open>
  C4, amended: for valid digraphs on the same \<open>n\<close> vertices, a difference that returns a
  digraph returns one on \<open>n\<close> vertices whose row \<open>v\<close> is the first at most \<open>d\<close> entries
  of the minuend's row that are neither \<open>v\<close> itself nor in the subtrahend's row, in the
  minuend's order; the difference of a digraph with itself has no arcs; and when every
  allocation is granted the difference does return a digraph.
\<close>

theorem iscc_digraph_difference_rows_capped:
  assumes "iscc_digraph_is_valid minuend" "vertices minuend = n"
    and "iscc_digraph_is_valid subtrahend" "vertices subtrahend = n"
  shows "(\<forall>out. iscc_digraph_difference alloc minuend subtrahend d = Inr out \<longrightarrow>
            vertices out = n
            \<and> (\<forall>v<n. out_row out v =
                  take d (filter (\<lambda>a. a \<noteq> v \<and> a \<notin> set (out_row subtrahend v))
                            (out_row minuend v)))
            \<and> (subtrahend = minuend \<longrightarrow>
                  head out = [] \<and> max_arcs out = 0 \<and> tail_ptr out = replicate (n + 1) 0))
       \<and> ((\<forall>k. alloc k) \<longrightarrow>
            (\<exists>out. iscc_digraph_difference alloc minuend subtrahend d = Inr out))"
proof (intro conjI allI impI)
  fix out
  assume res: "iscc_digraph_difference alloc minuend subtrahend d = Inr out"
  from iscc_digraph_difference_rows [OF res assms]
  have out: "out = csr_of (map (difference_rows_of minuend subtrahend d) [0..<n])" .
  show "vertices out = n" by (simp add: out)
  show "out_row out v =
          take d (filter (\<lambda>a. a \<noteq> v \<and> a \<notin> set (out_row subtrahend v)) (out_row minuend v))"
    if "v < n" for v
    using that by (simp add: out out_row_csr_of difference_rows_of_def)
  assume same: "subtrahend = minuend"
  have empty: "difference_rows_of minuend minuend d v = []" for v
    by (simp add: difference_rows_of_def)
  have rows: "map (difference_rows_of minuend minuend d) [0..<n] = replicate n []"
    by (rule nth_equalityI) (simp_all add: empty)
  show "head out = []" "max_arcs out = 0" by (simp_all add: out same rows)
  show "tail_ptr out = replicate (n + 1) 0"
  proof (rule nth_equalityI)
    show "length (tail_ptr out) = length (replicate (n + 1) (0::nat))"
      by (simp add: out)
    fix i assume "i < length (tail_ptr out)"
    then have "i \<le> length (replicate n ([]::nat list))" by (simp add: out)
    from tail_ptr_csr_of [OF this] show "tail_ptr out ! i = replicate (n + 1) 0 ! i"
      using \<open>i < length (tail_ptr out)\<close> by (cases i) (simp_all add: out same rows)
  qed
next
  assume "\<forall>k. alloc k"
  then show "\<exists>out. iscc_digraph_difference alloc minuend subtrahend d = Inr out"
    using assms by (rule difference_total)
qed

lemmas digraph_eval =
  store_result_def iscc_init_digraph_def iscc_change_arc_storage_def iscc_make_error_def
  do_result_def write_rows_def write_row_step_def union_row_def emit_unmarked_def out_row_def
  difference_row_def product_row_def SCC_DPID_NA_def SCC_DPID_MAX_def SCC_ARCI_MAX_def
  to_Arci_def upt_rec Let_def iscc_digraph_is_valid_def iscc_digraph_is_initialized_def
  all_arcs_def

lemma valid_examples:
  "iscc_digraph_is_valid two_cycle" "iscc_digraph_is_valid no_arcs2"
  "iscc_digraph_is_valid loop_and_arc" "iscc_digraph_is_valid double_arc"
  by (simp_all add: digraph_eval two_cycle_def no_arcs2_def loop_and_arc_def double_arc_def)

text \<open>
  C4, as the claim states it, fails: the minuend row \<open>[0, 1]\<close> of vertex \<open>0\<close> and an empty
  subtrahend row give the output row \<open>[1]\<close>, although neither entry occurs in the
  subtrahend row: the self-loop is dropped.
\<close>

theorem difference_drops_self_loop_counterexample:
  "iscc_digraph_is_valid loop_and_arc \<and> iscc_digraph_is_valid no_arcs2
   \<and> iscc_digraph_difference (\<lambda>n. True) loop_and_arc no_arcs2 2
       = Inr \<lparr>vertices = 2, max_arcs = 1, head = [1], tail_ptr = [0, 1, 1]\<rparr>
   \<and> take 2 (filter (\<lambda>a. a \<notin> set (out_row no_arcs2 0)) (out_row loop_and_arc 0)) = [0, 1]"
  by (simp add: valid_examples)
     (simp add: iscc_digraph_difference_def iscc_do_difference_def digraph_eval
        loop_and_arc_def no_arcs2_def)




lemma product_two_cycle:
  "iscc_adjacency_product (\<lambda>n. True) two_cycle two_cycle True False = Inr two_cycle"
  by (simp add: iscc_adjacency_product_def iscc_do_adjacency_product_def product_greedy_count_def
      digraph_eval two_cycle_def)



lemma difference_two_cycle_self:
  "iscc_digraph_difference (\<lambda>n. True) two_cycle two_cycle 1 = Inr no_arcs2"
  by (simp add: iscc_digraph_difference_def iscc_do_difference_def digraph_eval
      two_cycle_def no_arcs2_def)


text \<open>
  The theorem at the two-cycle minus itself.
\<close>

theorem iscc_digraph_difference_rows_capped_witness:
  "iscc_digraph_difference (\<lambda>n. True) two_cycle two_cycle 1 = Inr no_arcs2
   \<and> out_row no_arcs2 0 = take 1 (filter (\<lambda>a. a \<noteq> 0 \<and> a \<notin> set (out_row two_cycle 0))
                                        (out_row two_cycle 0))
   \<and> head no_arcs2 = [] \<and> tail_ptr no_arcs2 = replicate (2 + 1) 0"
  using iscc_digraph_difference_rows_capped
    [of two_cycle 2 two_cycle "\<lambda>n. True" 1] valid_examples difference_two_cycle_self
  by (simp add: two_cycle_def)


section \<open>Properties of the sort index\<close>






section \<open>The transpose\<close>

lemma sources_of_append [simp]: "sources_of (ps @ qs) x = sources_of ps x @ sources_of qs x"
  by (simp add: sources_of_def)

lemma sources_of_Nil [simp]: "sources_of [] x = []"
  by (simp add: sources_of_def)

lemma sources_of_Cons [simp]:
  "sources_of ((v, a) # ps) x = (if a = x then v # sources_of ps x else sources_of ps x)"
  by (simp add: sources_of_def)

lemma bucket_start_Suc:
  "bucket_start ps (Suc x) = bucket_start ps x + length (sources_of ps x)"
  by (simp add: bucket_start_def bucket_row_def)

lemma bucket_start_mono: "x \<le> y \<Longrightarrow> bucket_start ps x \<le> bucket_start ps y"
  by (induction y) (auto simp: bucket_start_Suc le_Suc_eq)

lemma bucket_start_0 [simp]: "bucket_start ps 0 = 0"
  by (simp add: bucket_start_def)

lemma scattered_step:
  assumes inv: "scattered K all ps t0 (t, h)" and all: "all = ps @ (v, a) # rs"
    and a: "a < K" and K: "K \<le> length t0"
  shows "scattered K all (ps @ [(v, a)]) t0 (scatter_arc v a (t, h))"
proof -
  let ?c = "\<lambda>x. length (sources_of ps x)"
  let ?S = "bucket_start all"
  from inv have lt: "length t = length t0" and lh: "length h = ?S K"
    and pos: "\<And>x. x < K \<Longrightarrow> t ! x + ?c x = ?S (Suc x)"
    and slice: "\<And>x. x < K \<Longrightarrow> take (?c x) (drop (t ! x) h) = rev (sources_of ps x)"
    and rest: "\<And>y. K \<le> y \<Longrightarrow> t ! y = t0 ! y"
    by (auto simp: scattered_def)
  have more: "?c a < length (sources_of all a)" by (simp add: all)
  have lower: "?S x \<le> t ! x" if "x < K" for x
  proof -
    have "?c x \<le> length (sources_of all x)" by (simp add: all)
    with pos [OF that] show ?thesis by (simp add: bucket_start_Suc)
  qed
  from pos [OF a] more have ta: "?S a < t ! a" by (simp add: bucket_start_Suc)
  define p where "p = t ! a - 1"
  have p1: "Suc p = t ! a" using ta by (simp add: p_def)
  have pS: "?S a \<le> p" using ta by (simp add: p_def)
  have "t ! a \<le> ?S (Suc a)" using pos [OF a] by simp
  also have "\<dots> \<le> ?S K" using a by (intro bucket_start_mono) simp
  finally have ph: "p < length h" using p1 lh by simp
  have alen: "a < length t" using a K lt by simp
  have res: "scatter_arc v a (t, h) = (t[a := p], h[p := v])"
    using alen by (simp add: scatter_arc_def Let_def p_def)
  have "take (length (sources_of (ps @ [(v, a)]) x)) (drop (t[a := p] ! x) (h[p := v]))
          = rev (sources_of (ps @ [(v, a)]) x)
        \<and> t[a := p] ! x + length (sources_of (ps @ [(v, a)]) x) = ?S (Suc x)"
    if x: "x < K" for x
  proof (cases "x = a")
    case True
    have "drop p (h[p := v]) = v # drop (Suc p) h"
      using ph by (simp add: Cons_nth_drop_Suc [symmetric] drop_update_cancel)
    then show ?thesis
      using True alen slice [OF a] pos [OF a] p1 by simp
  next
    case False
    have xl: "x < length t" using x K lt by simp
    have outside: "p < t ! x \<or> t ! x + ?c x \<le> p"
    proof (cases "x < a")
      case True
      then have "?S (Suc x) \<le> ?S a" by (intro bucket_start_mono) simp
      with pos [OF x] pS show ?thesis by simp
    next
      case False
      with \<open>x \<noteq> a\<close> have "Suc a \<le> x" by simp
      then have "?S (Suc a) \<le> ?S x" by (rule bucket_start_mono)
      with lower [OF x] pos [OF a] p1 show ?thesis by simp
    qed
    have "take (?c x) (drop (t ! x) (h[p := v])) = take (?c x) (drop (t ! x) h)"
    proof (cases "p < t ! x")
      case True
      then show ?thesis by (simp add: drop_update_cancel)
    next
      case False
      with outside have "t ! x + ?c x \<le> p" by simp
      then show ?thesis by (simp add: drop_update_swap)
    qed
    with False slice [OF x] pos [OF x] show ?thesis by simp
  qed
  moreover have "t[a := p] ! y = t0 ! y" if "K \<le> y" for y
    using that a rest [OF that] by simp
  ultimately show ?thesis
    unfolding res by (simp add: scattered_def lt lh)
qed

lemma scattered_fold:
  assumes "scattered K all ps t0 s" "all = ps @ rs" "\<forall>p\<in>set rs. snd p < K" "K \<le> length t0"
  shows "scattered K all all t0 (fold (\<lambda>p. scatter_arc (fst p) (snd p)) rs s)"
  using assms(1-3)
proof (induction rs arbitrary: ps s)
  case Nil
  then show ?case by simp
next
  case (Cons r rs)
  obtain v a where r: "r = (v, a)" by (cases r)
  obtain t h where s: "s = (t, h)" by (cases s)
  from Cons.prems r have a: "a < K" by simp
  have "scattered K all (ps @ [(v, a)]) t0 (scatter_arc v a (t, h))"
    using Cons.prems(1,2) a assms(4) unfolding r s by (rule scattered_step)
  then have "scattered K all all t0
               (fold (\<lambda>p. scatter_arc (fst p) (snd p)) rs (scatter_arc v a (t, h)))"
    using Cons.prems(2,3) by (intro Cons.IH) (simp_all add: r)
  then show ?case by (simp add: r s)
qed

lemma slices_concat:
  assumes "\<And>x. x < n \<Longrightarrow> take (length (ROW x)) (drop (length (concat (map ROW [0..<x]))) h) = ROW x"
    and "k \<le> n"
  shows "take (length (concat (map ROW [0..<k]))) h = concat (map ROW [0..<k])"
  using assms(2)
proof (induction k)
  case 0
  show ?case by simp
next
  case (Suc k)
  then have k: "k < n" by simp
  have "take (length (concat (map ROW [0..<Suc k]))) h
        = take (length (concat (map ROW [0..<k]))) h
          @ take (length (ROW k)) (drop (length (concat (map ROW [0..<k]))) h)"
    by (simp add: take_add)
  with Suc assms(1) [OF k] show ?case by simp
qed

lemma scatter_result:
  assumes keys: "\<forall>p\<in>set all. snd p < K" and K: "K \<le> length t"
    and t: "\<forall>x<K. t ! x = bucket_start all (Suc x)"
    and h: "length h = bucket_start all K"
  shows "\<exists>t'. fold (\<lambda>p. scatter_arc (fst p) (snd p)) all (t, h)
                = (t', concat (map (bucket_row all) [0..<K]))
              \<and> length t' = length t \<and> (\<forall>x<K. t' ! x = bucket_start all x)
              \<and> (\<forall>y\<ge>K. t' ! y = t ! y)"
proof -
  have "scattered K all [] t (t, h)"
    using t h by (simp add: scattered_def)
  from scattered_fold [OF this _ keys K]
  have fin: "scattered K all all t (fold (\<lambda>p. scatter_arc (fst p) (snd p)) all (t, h))"
    by simp
  obtain t' h' where res: "fold (\<lambda>p. scatter_arc (fst p) (snd p)) all (t, h) = (t', h')"
    by (cases "fold (\<lambda>p. scatter_arc (fst p) (snd p)) all (t, h)")
  from fin have lt: "length t' = length t" and lh: "length h' = bucket_start all K"
    and pos: "\<And>x. x < K \<Longrightarrow> t' ! x + length (sources_of all x) = bucket_start all (Suc x)"
    and slice: "\<And>x. x < K \<Longrightarrow>
          take (length (sources_of all x)) (drop (t' ! x) h') = rev (sources_of all x)"
    and rest: "\<And>y. K \<le> y \<Longrightarrow> t' ! y = t ! y"
    by (auto simp: scattered_def res)
  have start: "t' ! x = bucket_start all x" if "x < K" for x
    using pos [OF that] by (simp add: bucket_start_Suc)
  have "take (length (concat (map (bucket_row all) [0..<K]))) h'
          = concat (map (bucket_row all) [0..<K])"
  proof (rule slices_concat [where n = K])
    fix x assume x: "x < K"
    from slice [OF x] start [OF x]
    show "take (length (bucket_row all x))
            (drop (length (concat (map (bucket_row all) [0..<x]))) h') = bucket_row all x"
      by (simp add: bucket_row_def bucket_start_def)
  qed simp
  with lh have "h' = concat (map (bucket_row all) [0..<K])"
    by (simp add: bucket_start_def)
  with res lt start rest show ?thesis by auto
qed

lemma concat_rows_slice:
  assumes "iscc_digraph_is_valid dg" "k \<le> vertices dg"
  shows "concat (map (out_row dg) [0..<k]) = take (tail_ptr dg ! k) (head dg)"
  using assms(2)
proof (induction k)
  case 0
  from assms(1) show ?case by (simp add: iscc_digraph_is_valid_def)
next
  case (Suc k)
  let ?t = "tail_ptr dg"
  from assms(1) Suc.prems have le: "?t ! k \<le> ?t ! Suc k"
    by (auto simp: sorted_iff_nth_mono iscc_digraph_is_valid_def
        iscc_digraph_is_initialized_def)
  have "take (?t ! Suc k) (head dg)
        = take (?t ! k) (head dg) @ take (?t ! Suc k - ?t ! k) (drop (?t ! k) (head dg))"
    using le by (metis le_add_diff_inverse take_add)
  with Suc show ?case by (simp add: out_row_def)
qed

lemma all_arcs_concat_rows:
  "iscc_digraph_is_valid dg \<Longrightarrow> all_arcs dg = concat (map (out_row dg) [0..<vertices dg])"
  by (simp add: concat_rows_slice all_arcs_def)

lemma map_snd_arc_pairs: "map snd (arc_pairs dg) = concat (map (out_row dg) [0..<vertices dg])"
  by (simp add: arc_pairs_def map_concat comp_def)

lemma arc_pairs_keys:
  assumes "iscc_digraph_is_valid dg"
  shows "\<forall>p\<in>set (arc_pairs dg). fst p < vertices dg \<and> snd p < vertices dg"
  using out_row_valid [OF assms] by (auto simp: arc_pairs_def)

lemma transpose_scatter_pairs:
  "transpose_scatter dg s = fold (\<lambda>p. scatter_arc (fst p) (snd p)) (arc_pairs dg) s"
  by (simp add: transpose_scatter_def arc_pairs_def fold_fold_concat [symmetric] fold_map comp_def)

lemma length_sources_of: "length (sources_of ps x) = count_list (map snd ps) x"
  by (induction ps) (auto simp: sources_of_def)

lemma transpose_count_nth:
  assumes "\<forall>a\<in>set arcs. a < length t"
  shows "length (transpose_count arcs t) = length t
         \<and> (\<forall>x<length t. transpose_count arcs t ! x = t ! x + count_list arcs x)"
  using assms
proof (induction arcs arbitrary: t)
  case Nil
  show ?case by (simp add: transpose_count_def)
next
  case (Cons a arcs)
  have "transpose_count (a # arcs) t = transpose_count arcs (t[a := t ! a + 1])"
    by (simp add: transpose_count_def)
  moreover from Cons.prems have "\<forall>b\<in>set arcs. b < length (t[a := t ! a + 1])" by simp
  from Cons.IH [OF this]
  have "length (transpose_count arcs (t[a := t ! a + 1])) = length t"
    and "\<forall>x<length t. transpose_count arcs (t[a := t ! a + 1]) ! x
           = t[a := t ! a + 1] ! x + count_list arcs x"
    by simp_all
  ultimately show ?case using Cons.prems by (auto simp: nth_list_update)
qed

lemma transpose_accumulate_nth:
  assumes "k < length t"
  shows "length (transpose_accumulate k t) = length t
         \<and> (\<forall>x<length t. transpose_accumulate k t ! x
               = (if x \<le> k then sum_list (take (Suc x) t) else t ! x))"
  using assms
proof (induction k)
  case 0
  then show ?case
    by (cases t) (auto simp: transpose_accumulate_def)
next
  case (Suc k)
  let ?u = "transpose_accumulate k t"
  from Suc have len: "length ?u = length t"
    and nth: "\<And>x. x < length t \<Longrightarrow> ?u ! x = (if x \<le> k then sum_list (take (Suc x) t) else t ! x)"
    by simp_all
  have step: "transpose_accumulate (Suc k) t = ?u[Suc k := ?u ! Suc k + ?u ! k]"
    by (simp add: transpose_accumulate_def)
  have "sum_list (take (Suc (Suc k)) t) = sum_list (take (Suc k) t) + t ! Suc k"
    using Suc.prems by (simp add: take_Suc_conv_app_nth [of "Suc k"])
  with Suc.prems nth [of "Suc k"] nth [of k] len show ?case
    unfolding step by (auto simp: nth_list_update nth)
qed

lemma bucket_start_sum:
  "bucket_start ps x = sum_list (map (\<lambda>y. count_list (map snd ps) y) [0..<x])"
  by (induction x) (simp_all add: bucket_start_Suc length_sources_of)

lemma bucket_start_total:
  assumes "\<forall>p\<in>set ps. snd p < K"
  shows "bucket_start ps K = length ps"
proof -
  have "length (filter (\<lambda>p. snd p < k) ps) = bucket_start ps k" for k
  proof (induction k)
    case 0
    show ?case by simp
  next
    case (Suc k)
    have "length (filter (\<lambda>p. snd p < Suc k) ps)
          = length (filter (\<lambda>p. snd p < k) ps) + length (filter (\<lambda>p. snd p = k) ps)"
      by (induction ps) (auto simp: less_Suc_eq)
    with Suc show ?case by (simp add: bucket_start_Suc sources_of_def)
  qed
  from this [of K, symmetric] assms show ?thesis by simp
qed

lemma take_map_upt: "k \<le> n \<Longrightarrow> take k (map f [0..<n]) = map f [0..<k]"
  by (simp add: take_map)

lemma sum_list_take_nth:
  "k \<le> length t \<Longrightarrow> sum_list (take k t) = sum_list (map ((!) t) [0..<k])"
  by (induction k) (simp_all add: take_Suc_conv_app_nth)

lemma iscc_digraph_transpose_rows:
  assumes valid: "iscc_digraph_is_valid g" and res: "iscc_digraph_transpose alloc g = Inr out"
  shows "out = csr_of (map (transpose_rows_of g) [0..<vertices g])"
proof -
  define n where "n = vertices g"
  define m where "m = tail_ptr g ! n"
  define P where "P = arc_pairs g"
  let ?cnt = "\<lambda>x. count_list (map snd P) x"
  have arcs: "all_arcs g = map snd P"
    using valid by (simp add: all_arcs_concat_rows map_snd_arc_pairs P_def)
  from valid have "m \<le> length (head g)"
    by (simp add: iscc_digraph_is_valid_def iscc_digraph_is_initialized_def m_def n_def)
  then have lenP: "length P = m"
    using arg_cong [OF arcs, of length] by (simp add: all_arcs_def m_def n_def)
  have keys: "\<forall>p\<in>set P. snd p < n"
    using arc_pairs_keys [OF valid] by (simp add: P_def n_def)
  then have cntn: "?cnt n = 0" by (auto simp: count_list_0_iff)
  have total: "bucket_start P n = m"
    using bucket_start_total [OF keys] lenP by simp
  define t1 where "t1 = transpose_count (all_arcs g) (replicate (n + 1) 0)"
  have "\<forall>a\<in>set (all_arcs g). a < length (replicate (n + 1) (0::nat))"
    using keys by (auto simp: arcs)
  from transpose_count_nth [OF this]
  have len1: "length t1 = n + 1" and nth1: "\<And>x. x \<le> n \<Longrightarrow> t1 ! x = ?cnt x"
    by (simp_all add: t1_def arcs less_Suc_eq_le del: replicate_Suc)
  define t2 where "t2 = transpose_accumulate n t1"
  have "n < length t1" by (simp add: len1)
  from transpose_accumulate_nth [OF this]
  have len2: "length t2 = n + 1"
    and nth2': "\<And>x. x \<le> n \<Longrightarrow> t2 ! x = sum_list (take (Suc x) t1)"
    by (simp_all add: t2_def len1)
  have nth2: "t2 ! x = bucket_start P (Suc x)" if "x \<le> n" for x
  proof -
    have "map ((!) t1) [0..<Suc x] = map ?cnt [0..<Suc x]"
      using that by (intro map_cong refl nth1) auto
    with that show ?thesis
      by (simp only: nth2' [OF that] sum_list_take_nth len1 bucket_start_sum)
  qed
  have t2n: "t2 ! n = bucket_start P n"
    using nth2 [of n] cntn by (simp add: bucket_start_Suc length_sources_of)
  have "\<exists>t'. fold (\<lambda>p. scatter_arc (fst p) (snd p)) P (t2, replicate m 0)
                = (t', concat (map (bucket_row P) [0..<n]))
              \<and> length t' = length t2 \<and> (\<forall>x<n. t' ! x = bucket_start P x)
              \<and> (\<forall>y\<ge>n. t' ! y = t2 ! y)"
    using keys by (intro scatter_result) (simp_all add: len2 nth2 total)
  then obtain t3 where
    sc: "transpose_scatter g (t2, replicate m 0) = (t3, concat (map (bucket_row P) [0..<n]))"
    and len3: "length t3 = n + 1" and nth3: "\<And>x. x < n \<Longrightarrow> t3 ! x = bucket_start P x"
    and t3n: "t3 ! n = bucket_start P n"
    by (auto simp: transpose_scatter_pairs P_def len2 t2n)
  have t3: "t3 = map (bucket_start P) [0..<Suc n]"
  proof (rule nth_equalityI)
    show "length t3 = length (map (bucket_start P) [0..<Suc n])" by (simp add: len3)
  next
    fix i assume "i < length t3"
    then have "i < n \<or> i = n" by (auto simp: len3)
    then show "t3 ! i = map (bucket_start P) [0..<Suc n] ! i"
      using nth3 t3n by (auto simp: nth_append simp del: upt_Suc)
  qed
  from res have "out = \<lparr>vertices = n, max_arcs = m,
                         head = concat (map (bucket_row P) [0..<n]), tail_ptr = t3\<rparr>"
    using sc [unfolded t2_def t1_def]
    by (auto simp: iscc_digraph_transpose_def iscc_empty_digraph_def iscc_init_digraph_def
        Let_def n_def [symmetric] m_def [symmetric] simp del: replicate_Suc
        split: if_splits)
  also have "\<dots> = csr_of (map (bucket_row P) [0..<n])"
    using total
    by (simp add: csr_of_def t3 take_map_upt bucket_start_def del: upt_Suc cong: map_cong)
  finally show ?thesis
    by (simp add: transpose_rows_of_def [abs_def] P_def n_def)
qed

lemma count_list_sources_of: "count_list (sources_of ps x) v = count_list ps (v, x)"
  by (induction ps) (auto simp: sources_of_def)

lemma count_list_map_Pair:
  "count_list (map (Pair k) xs) (v, a) = (if v = k then count_list xs a else 0)"
  by (induction xs) auto

lemma count_list_arc_pairs:
  "count_list (arc_pairs dg) (v, a)
     = (if v < vertices dg then count_list (out_row dg v) a else 0)"
proof -
  have "count_list (concat (map (\<lambda>v. map (Pair v) (out_row dg v)) [0..<k])) (v, a)
          = (if v < k then count_list (out_row dg v) a else 0)" for k
    by (induction k) (auto simp: count_list_map_Pair)
  then show ?thesis by (simp add: arc_pairs_def)
qed

lemma count_list_transpose_rows_of:
  "count_list (transpose_rows_of dg x) v
     = (if v < vertices dg then count_list (out_row dg v) x else 0)"
  by (simp add: transpose_rows_of_def bucket_row_def count_list_sources_of
      count_list_arc_pairs)

lemma transpose_rows_of_bound:
  assumes "iscc_digraph_is_valid dg" "v \<in> set (transpose_rows_of dg x)"
  shows "v < vertices dg"
  using assms(2) arc_pairs_keys [OF assms(1)]
  by (auto simp: transpose_rows_of_def bucket_row_def sources_of_def)

lemma length_concat_transpose_rows:
  assumes "iscc_digraph_is_valid dg"
  shows "length (concat (map (transpose_rows_of dg) [0..<vertices dg]))
           = tail_ptr dg ! vertices dg"
proof -
  have "length (concat (map (transpose_rows_of dg) [0..<vertices dg]))
          = bucket_start (arc_pairs dg) (vertices dg)"
    by (simp add: bucket_start_def transpose_rows_of_def [abs_def])
  also have "\<dots> = length (arc_pairs dg)"
    using arc_pairs_keys [OF assms] by (intro bucket_start_total) simp
  also have "\<dots> = length (map snd (arc_pairs dg))" by simp
  also have "\<dots> = tail_ptr dg ! vertices dg"
    using assms length_concat_rows [OF assms le_refl]
    by (simp only: map_snd_arc_pairs) (simp add: iscc_digraph_is_valid_def)
  finally show ?thesis .
qed

lemma iscc_digraph_transpose_valid:
  assumes valid: "iscc_digraph_is_valid g" and res: "iscc_digraph_transpose alloc g = Inr out"
  shows "iscc_digraph_is_valid out \<and> vertices out = vertices g"
proof -
  have out: "out = csr_of (map (transpose_rows_of g) [0..<vertices g])"
    using valid res by (rule iscc_digraph_transpose_rows)
  from valid have "tail_ptr g ! vertices g \<le> SCC_ARCI_MAX" "vertices g < SCC_DPID_MAX"
    by (auto simp: iscc_digraph_is_valid_def iscc_digraph_is_initialized_def)
  then have "iscc_digraph_is_valid (csr_of (map (transpose_rows_of g) [0..<vertices g]))"
    using transpose_rows_of_bound [OF valid]
    by (intro csr_of_valid) (auto simp: length_concat_transpose_rows [OF valid])
  then show ?thesis by (simp add: out)
qed

lemma iscc_digraph_transpose_total:
  assumes "iscc_digraph_is_valid g" "\<forall>k. alloc k"
  shows "\<exists>out. iscc_digraph_transpose alloc g = Inr out"
proof -
  from assms(1) have "tail_ptr g ! vertices g \<le> SCC_ARCI_MAX"
    by (auto simp: iscc_digraph_is_valid_def iscc_digraph_is_initialized_def)
  with assms(2) show ?thesis
    by (simp add: iscc_digraph_transpose_def iscc_empty_digraph_def iscc_init_digraph_def
        Let_def split: prod.split)
qed

lemma out_row_transpose:
  assumes "iscc_digraph_is_valid g" "iscc_digraph_transpose alloc g = Inr out" "x < vertices g"
  shows "out_row out x = transpose_rows_of g x"
  using assms(3) by (simp add: iscc_digraph_transpose_rows [OF assms(1,2)] out_row_csr_of)

lemma length_concat_map_eq:
  assumes "\<And>x. x \<in> set xs \<Longrightarrow> length (f x) = length (g x)"
  shows "length (concat (map f xs)) = length (concat (map g xs))"
  using assms by (induction xs) simp_all

text \<open>
  C8: for every valid digraph \<open>g\<close>, transposing twice gives a digraph that equals \<open>g\<close> up
  to the order of the destinations within each row. When both transposes return a digraph,
  the second one is valid, has the vertices and exactly the \<open>tail_ptr\<close> of \<open>g\<close>, and each
  of its rows holds the destinations of the row of \<open>g\<close>, every destination as often as in
  \<open>g\<close> (so the rows are equal as multisets, hence as sets). When every allocation is
  granted, both transposes do return a digraph. The theorem does not need the vertex count
  to be positive.
\<close>

theorem iscc_digraph_transpose_twice:
  assumes valid: "iscc_digraph_is_valid g"
  shows "((\<forall>k. alloc k) \<longrightarrow>
            (\<exists>t tt. iscc_digraph_transpose alloc g = Inr t
                     \<and> iscc_digraph_transpose alloc t = Inr tt))
         \<and> (\<forall>t tt. iscc_digraph_transpose alloc g = Inr t
                     \<and> iscc_digraph_transpose alloc t = Inr tt \<longrightarrow>
               iscc_digraph_is_valid tt \<and> vertices tt = vertices g
               \<and> tail_ptr tt = tail_ptr g
               \<and> (\<forall>v<vertices g. mset (out_row tt v) = mset (out_row g v)
                                   \<and> set (out_row tt v) = set (out_row g v)))"
proof (intro conjI impI allI)
  assume all: "\<forall>k. alloc k"
  from iscc_digraph_transpose_total [OF valid all]
  obtain t where t: "iscc_digraph_transpose alloc g = Inr t" ..
  from iscc_digraph_transpose_valid [OF valid t] have "iscc_digraph_is_valid t" ..
  from iscc_digraph_transpose_total [OF this all] t
  show "\<exists>t tt. iscc_digraph_transpose alloc g = Inr t
                \<and> iscc_digraph_transpose alloc t = Inr tt"
    by auto
next
  fix t tt
  assume "iscc_digraph_transpose alloc g = Inr t \<and> iscc_digraph_transpose alloc t = Inr tt"
  then have t: "iscc_digraph_transpose alloc g = Inr t"
    and tt: "iscc_digraph_transpose alloc t = Inr tt" by simp_all
  from iscc_digraph_transpose_valid [OF valid t]
  have vt: "iscc_digraph_is_valid t" and nt: "vertices t = vertices g" by simp_all
  from iscc_digraph_transpose_valid [OF vt tt]
  have vtt: "iscc_digraph_is_valid tt" and ntt: "vertices tt = vertices g" by (simp_all add: nt)
  have rows: "mset (out_row tt v) = mset (out_row g v)" if v: "v < vertices g" for v
  proof (rule multiset_eqI)
    fix y
    have "count_list (out_row tt v) y
            = (if y < vertices g then count_list (out_row t y) v else 0)"
      using v by (simp add: out_row_transpose [OF vt tt] nt count_list_transpose_rows_of)
    also have "\<dots> = (if y < vertices g then count_list (out_row g v) y else 0)"
      using v by (simp add: out_row_transpose [OF valid t] count_list_transpose_rows_of)
    also have "\<dots> = count_list (out_row g v) y"
      using out_row_valid [OF valid v, of y] by (auto simp: count_list_0_iff)
    finally show "count (mset (out_row tt v)) y = count (mset (out_row g v)) y"
      by (simp add: count_mset)
  qed
  have tp: "tail_ptr tt ! k = tail_ptr g ! k" if k: "k \<le> vertices g" for k
  proof -
    have "length (concat (map (out_row tt) [0..<k])) = length (concat (map (out_row g) [0..<k]))"
    proof (rule length_concat_map_eq)
      fix x assume "x \<in> set [0..<k]"
      with k have "x < vertices g" by simp
      from rows [OF this] show "length (out_row tt x) = length (out_row g x)"
        by (metis size_mset)
    qed
    with length_concat_rows [OF valid k] length_concat_rows [OF vtt, of k] k valid vtt
    show ?thesis by (simp add: ntt iscc_digraph_is_valid_def)
  qed
  have "tail_ptr tt = tail_ptr g"
  proof (rule nth_equalityI)
    show "length (tail_ptr tt) = length (tail_ptr g)"
      using valid vtt ntt
      by (simp add: iscc_digraph_is_valid_def iscc_digraph_is_initialized_def)
  next
    fix i assume "i < length (tail_ptr tt)"
    with vtt ntt have "i \<le> vertices g"
      by (simp add: iscc_digraph_is_valid_def iscc_digraph_is_initialized_def)
    then show "tail_ptr tt ! i = tail_ptr g ! i" by (rule tp)
  qed
  moreover have "set (out_row tt v) = set (out_row g v)" if "v < vertices g" for v
    using rows [OF that] by (rule mset_eq_setD)
  ultimately show "iscc_digraph_is_valid tt" "vertices tt = vertices g"
    "tail_ptr tt = tail_ptr g"
    "\<And>v. v < vertices g \<Longrightarrow> mset (out_row tt v) = mset (out_row g v)"
    "\<And>v. v < vertices g \<Longrightarrow> set (out_row tt v) = set (out_row g v)"
    using vtt ntt rows by simp_all
qed

lemma replicate_zeros:
  "replicate 3 (0::nat) = [0, 0, 0]" "replicate 4 (0::nat) = [0, 0, 0, 0]"
  by (simp_all add: eval_nat_numeral)

lemma transpose_fan3:
  "iscc_digraph_is_valid fan3"
  "iscc_digraph_transpose (\<lambda>_. True) fan3 = Inr fan3_transposed"
  "iscc_digraph_transpose (\<lambda>_. True) fan3_transposed = Inr fan3_twice"
  by (simp_all add: fan3_def fan3_transposed_def fan3_twice_def iscc_digraph_transpose_def
      iscc_empty_digraph_def transpose_count_def transpose_accumulate_def
      transpose_scatter_def scatter_arc_def digraph_eval replicate_zeros)

text \<open>
  The digraph with the rows \<open>[1, 2]\<close>, \<open>[]\<close>, \<open>[0]\<close>: its transpose has the rows \<open>[2]\<close>, \<open>[0]\<close>,
  \<open>[0]\<close>, and the transpose of that has the rows \<open>[2, 1]\<close>, \<open>[]\<close>, \<open>[0]\<close>: the same \<open>tail_ptr\<close>,
  the first row permuted.
\<close>

theorem iscc_digraph_transpose_twice_witness:
  "iscc_digraph_is_valid fan3
   \<and> iscc_digraph_transpose (\<lambda>_. True) fan3 = Inr fan3_transposed
   \<and> iscc_digraph_transpose (\<lambda>_. True) fan3_transposed = Inr fan3_twice
   \<and> tail_ptr fan3_twice = tail_ptr fan3
   \<and> out_row fan3 0 = [1, 2] \<and> out_row fan3_twice 0 = [2, 1]
   \<and> mset (out_row fan3_twice 0) = mset (out_row fan3 0)"
  using iscc_digraph_transpose_twice [of fan3 "\<lambda>_. True"] transpose_fan3
  by (auto simp: fan3_def fan3_twice_def out_row_def)

end
